theory Spec2Isabelle
  imports Main "HOL-Library.Word" "HOL-Library.Signed_Division" "HOL-Library.AList"
begin

section \<open>Go values used by package stats\<close>

text \<open>
  The recorder of \<^verbatim>\<open>stats.go\<close> is embedded for a 64-bit Go platform: \<^verbatim>\<open>int\<close>,
  \<^verbatim>\<open>int64\<close> and \<^verbatim>\<open>time.Duration\<close> are 64-bit two's complement words whose
  arithmetic wraps around. A \<^verbatim>\<open>time.Time\<close> is taken as an instant, the number of
  nanoseconds since the zero time \<^verbatim>\<open>time.Time{}\<close>: \<open>t div 10 ^ 9\<close> is the count of
  seconds that a \<^verbatim>\<open>Time\<close> keeps as an \<^verbatim>\<open>int64\<close> and \<open>t mod 10 ^ 9\<close> its nanoseconds.
  \<^verbatim>\<open>Time.Sub\<close> saturates at the largest and smallest duration. \<^verbatim>\<open>Time.Add\<close> adds
  seconds and nanoseconds apart, as package time does, and its seconds saturate
  where the \<^verbatim>\<open>int64\<close> would overflow (\<open>addSec\<close>). The clock is an input: every
  operation that calls \<^verbatim>\<open>time.Now()\<close> takes the value read as its argument \<open>now\<close>,
  one instant, whose wall and monotonic readings are not told apart.
\<close>

type_synonym go_int = "64 word"
type_synonym duration = "64 word"
type_synonym Time = int

definition maxDuration :: int where
  "maxDuration = 2 ^ 63 - 1"

definition minDuration :: int where
  "minDuration = - (2 ^ 63)"

definition zeroTime :: Time where
  "zeroTime = 0"

definition time_Sub :: "Time \<Rightarrow> Time \<Rightarrow> duration" where
  "time_Sub t u = word_of_int (max minDuration (min maxDuration (t - u)))"

text \<open>
  \<^verbatim>\<open>Time.Add\<close> of package time, for a \<^verbatim>\<open>Time\<close> with no monotonic reading, as
  \<^verbatim>\<open>TotalResponseTime\<close> is: \<open>int64\<close> wraps a sum to 64 bits, and \<open>addSec\<close> tells
  from the wrapped sum whether the seconds overflowed.
\<close>

definition int64 :: "int \<Rightarrow> int" where
  "int64 x = signed_take_bit 63 x"

definition addSec :: "int \<Rightarrow> int \<Rightarrow> int" where
  "addSec ext d =
     (let sum = int64 (ext + d)
      in if (ext < sum) = (0 < d) then sum
         else if 0 < d then 2 ^ 63 - 1
         else - (2 ^ 63 - 1))"

definition time_Add :: "Time \<Rightarrow> duration \<Rightarrow> Time" where
  "time_Add t d =
     (let dsec = sint d sdiv 1000000000;
          nsec = t mod 1000000000 + sint d smod 1000000000;
          (dsec, nsec) = (if 1000000000 \<le> nsec then (dsec + 1, nsec - 1000000000)
                          else if nsec < 0 then (dsec - 1, nsec + 1000000000)
                          else (dsec, nsec))
      in addSec (t div 1000000000) dsec * 1000000000 + nsec)"

text \<open>
  Go's \<^verbatim>\<open>/\<close> on \<^verbatim>\<open>int64\<close>: a run-time panic when the divisor is zero, otherwise
  the quotient truncated towards zero and wrapped to 64 bits.
\<close>

datatype panic = NilMapAssignment | IntegerDivideByZero

definition int64_div :: "64 word \<Rightarrow> 64 word \<Rightarrow> panic + 64 word" where
  "int64_div a b = (if b = 0 then Inl IntegerDivideByZero else Inr (word_of_int (sint a sdiv sint b)))"

subsection \<open>fmt.Sprintf("%d", n)\<close>

definition digit_char :: "nat \<Rightarrow> char" where
  "digit_char d = ''0123456789'' ! d"

fun digits :: "nat \<Rightarrow> string" where
  "digits n = (if n < 10 then [digit_char n] else digits (n div 10) @ [digit_char (n mod 10)])"

declare digits.simps [simp del]

definition Sprintf_d :: "go_int \<Rightarrow> string" where
  "Sprintf_d n = (if sint n < 0 then CHR ''-'' # digits (nat (- sint n)) else digits (nat (sint n)))"

subsection \<open>map[string]int\<close>

text \<open>
  A Go map value is a reference. The store \<open>maps\<close> of the world below holds the
  entries of every allocated map as an association list; a field of map type holds
  \<open>Some\<close> address, or \<open>None\<close> for the nil map. Reading a missing key gives the zero
  value, \<^verbatim>\<open>m[k]++\<close> reads and stores, and a store into the nil map panics.
\<close>

type_synonym entries = "(string \<times> go_int) list"
type_synonym addr = nat

definition entries_get :: "entries \<Rightarrow> string \<Rightarrow> go_int" where
  "entries_get m k = (case map_of m k of None \<Rightarrow> 0 | Some v \<Rightarrow> v)"

definition entries_incr :: "string \<Rightarrow> entries \<Rightarrow> entries" where
  "entries_incr k m = AList.update k (entries_get m k + 1) m"

section \<open>The recorder and its world\<close>

record Stats =
  Uptime :: Time
  Pid :: go_int
  ResponseCounts :: "addr option"
  TotalResponseCounts :: "addr option"
  TotalResponseTime :: Time

text \<open>
  Of fasthttp's \<^verbatim>\<open>RequestCtx\<close> the recorder uses the response status only:
  \<open>statusCode\<close> is the field of the response header that \<^verbatim>\<open>ctx.SetStatusCode\<close>
  stores, and \<open>StatusCode\<close> is \<^verbatim>\<open>ctx.Response.StatusCode()\<close>, which returns the
  field and 200 (\<^verbatim>\<open>StatusOK\<close>) where the field is 0. A context is passed by its
  address.
\<close>

record RequestCtx =
  statusCode :: go_int

definition StatusCode :: "RequestCtx \<Rightarrow> go_int" where
  "StatusCode c = (if statusCode c = 0 then 200 else statusCode c)"

record world =
  mw :: Stats
  maps :: "addr \<Rightarrow> entries"
  next_addr :: addr
  ctxs :: "addr \<Rightarrow> RequestCtx"

definition make_map :: "world \<Rightarrow> addr \<times> world" where
  "make_map w = (next_addr w, w\<lparr>maps := (maps w)(next_addr w := []), next_addr := Suc (next_addr w)\<rparr>)"

definition map_range :: "addr option \<Rightarrow> world \<Rightarrow> entries" where
  "map_range r w = (case r of None \<Rightarrow> [] | Some a \<Rightarrow> maps w a)"

definition map_store :: "addr \<Rightarrow> string \<Rightarrow> go_int \<Rightarrow> world \<Rightarrow> world" where
  "map_store a k v w = w\<lparr>maps := (maps w)(a := AList.update k v (maps w a))\<rparr>"

definition map_incr :: "addr option \<Rightarrow> string \<Rightarrow> world \<Rightarrow> panic + world" where
  "map_incr r k w = (case r of None \<Rightarrow> Inl NilMapAssignment
     | Some a \<Rightarrow> Inr (w\<lparr>maps := (maps w)(a := entries_incr k (maps w a))\<rparr>))"

subsection \<open>New, ResetResponseCounts, Begin, EndWithStatus, End\<close>

text \<open>
  \<^verbatim>\<open>New\<close> also starts the goroutine that calls \<^verbatim>\<open>ResetResponseCounts\<close> once a
  second. Every method holds the recorder's lock for its whole effect, so a run of
  the program is a sequence of whole operations in which resets occur at any place
  (the type \<open>op\<close> below).
\<close>

definition New :: "Time \<Rightarrow> go_int \<Rightarrow> world \<Rightarrow> world" where
  "New now pid w =
     (let (rc, w1) = make_map w;
          (trc, w2) = make_map w1
      in w2\<lparr>mw := \<lparr>Uptime = now, Pid = pid, ResponseCounts = Some rc,
                   TotalResponseCounts = Some trc, TotalResponseTime = zeroTime\<rparr>\<rparr>)"

definition ResetResponseCounts :: "world \<Rightarrow> world" where
  "ResetResponseCounts w =
     (let (m, w1) = make_map w
      in w1\<lparr>mw := (mw w1)\<lparr>ResponseCounts := Some m\<rparr>\<rparr>)"

definition SetStatusCode :: "addr \<Rightarrow> go_int \<Rightarrow> world \<Rightarrow> world" where
  "SetStatusCode ctx s w = w\<lparr>ctxs := (ctxs w)(ctx := (ctxs w ctx)\<lparr>statusCode := s\<rparr>)\<rparr>"

definition Begin :: "Time \<Rightarrow> addr \<Rightarrow> world \<Rightarrow> (Time \<times> addr) \<times> world" where
  "Begin now ctx w =
     (let start = now;
          w1 = SetStatusCode ctx 200 w
      in ((start, ctx), w1))"

definition EndWithStatus :: "Time \<Rightarrow> Time \<Rightarrow> go_int \<Rightarrow> world \<Rightarrow> panic + world" where
  "EndWithStatus now start status w =
     (let end0 = now;
          responseTime = time_Sub end0 start;
          statusCode = Sprintf_d status
      in case map_incr (ResponseCounts (mw w)) statusCode w of
           Inl e \<Rightarrow> Inl e
         | Inr w1 \<Rightarrow>
             (case map_incr (TotalResponseCounts (mw w1)) statusCode w1 of
                Inl e \<Rightarrow> Inl e
              | Inr w2 \<Rightarrow>
                  Inr (w2\<lparr>mw := (mw w2)\<lparr>TotalResponseTime :=
                         time_Add (TotalResponseTime (mw w2)) responseTime\<rparr>\<rparr>)))"

definition End :: "Time \<Rightarrow> Time \<Rightarrow> addr \<Rightarrow> world \<Rightarrow> panic + world" where
  "End now start ctx w = EndWithStatus now start (StatusCode (ctxs w ctx)) w"

subsection \<open>Data\<close>

text \<open>
  The fields of \<^verbatim>\<open>Data\<close> that render a duration or a time twice, as a string and
  as a float64 number of seconds, are kept as the value rendered: \<open>UpTime\<close> for
  \<^verbatim>\<open>UpTime\<close> and \<^verbatim>\<open>UpTimeSec\<close>, \<open>Time_now\<close> for \<^verbatim>\<open>Time\<close> and \<^verbatim>\<open>TimeUnix\<close>,
  \<open>TotalResponseTime_d\<close> and \<open>AverageResponseTime\<close> likewise. The two maps of the
  result are references into the store.
\<close>

record Data =
  Pid_d :: go_int
  UpTime :: duration
  Time_now :: Time
  StatusCodeCount :: addr
  TotalStatusCodeCount :: addr
  Count :: go_int
  TotalCount :: go_int
  TotalResponseTime_d :: duration
  AverageResponseTime :: duration

text \<open>
  One iteration of \<^verbatim>\<open>for code, current := range m { dst[code] = current; count += current }\<close>.
  Go leaves the order of a range over a map open; the loop visits the entries in
  the order of the list (the count and the map built do not depend on it, lemma
  \<open>copy_loop_order\<close> below).
\<close>

definition copy_step :: "addr \<Rightarrow> string \<times> go_int \<Rightarrow> world \<times> go_int \<Rightarrow> world \<times> go_int" where
  "copy_step dst = (\<lambda>(code, current) (w, count). (map_store dst code current w, count + current))"

definition Data :: "Time \<Rightarrow> world \<Rightarrow> panic + Data \<times> world" where
  "Data clock w =
     (let (responseCounts, w1) = make_map w;
          (totalResponseCounts, w2) = make_map w1;
          now = clock;
          uptime = time_Sub now (Uptime (mw w2));
          (w3, count) = fold (copy_step responseCounts) (map_range (ResponseCounts (mw w2)) w2) (w2, 0);
          (w4, totalCount) = fold (copy_step totalResponseCounts) (map_range (TotalResponseCounts (mw w3)) w3) (w3, 0);
          totalResponseTime = time_Sub (TotalResponseTime (mw w4)) zeroTime
      in case (if 0 <s totalCount then int64_div totalResponseTime totalCount else Inr 0) of
           Inl e \<Rightarrow> Inl e
         | Inr averageResponseTime \<Rightarrow>
             Inr (\<lparr>Pid_d = Pid (mw w4), UpTime = uptime, Time_now = now,
                   StatusCodeCount = responseCounts, TotalStatusCodeCount = totalResponseCounts,
                   Count = count, TotalCount = totalCount,
                   TotalResponseTime_d = totalResponseTime,
                   AverageResponseTime = averageResponseTime\<rparr>, w4))"

subsection \<open>Runs of the program\<close>

text \<open>
  An operation of a run: the five methods, and \<open>SetStatusCode_op\<close> for a handler
  that sets the status of its response between \<^verbatim>\<open>Begin\<close> and \<^verbatim>\<open>End\<close>. A run
  stops at the first panic.
\<close>

datatype op =
    Begin_op Time addr
  | SetStatusCode_op addr go_int
  | End_op Time Time addr
  | EndWithStatus_op Time Time go_int
  | Reset_op
  | Data_op Time

fun step :: "op \<Rightarrow> world \<Rightarrow> panic + world" where
  "step (Begin_op now ctx) w = Inr (snd (Begin now ctx w))"
| "step (SetStatusCode_op ctx s) w = Inr (SetStatusCode ctx s w)"
| "step (End_op now start ctx) w = End now start ctx w"
| "step (EndWithStatus_op now start s) w = EndWithStatus now start s w"
| "step Reset_op w = Inr (ResetResponseCounts w)"
| "step (Data_op now) w = (case Data now w of Inl e \<Rightarrow> Inl e | Inr (d, w') \<Rightarrow> Inr w')"

fun run :: "op list \<Rightarrow> world \<Rightarrow> panic + world" where
  "run [] w = Inr w"
| "run (p # ps) w = (case step p w of Inl e \<Rightarrow> Inl e | Inr w' \<Rightarrow> run ps w')"

text \<open>
  What a run is observed by: the status code an operation records (the argument of
  \<^verbatim>\<open>EndWithStatus\<close>, the status of the response when \<^verbatim>\<open>End\<close> is called) and the
  latency it measures; \<open>recorded\<close> and \<open>latencies\<close> list them along a run.
\<close>

fun status_of :: "op \<Rightarrow> world \<Rightarrow> go_int option" where
  "status_of (End_op now start ctx) w = Some (StatusCode (ctxs w ctx))"
| "status_of (EndWithStatus_op now start s) w = Some s"
| "status_of p w = None"

fun elapsed_of :: "op \<Rightarrow> duration option" where
  "elapsed_of (End_op now start ctx) = Some (time_Sub now start)"
| "elapsed_of (EndWithStatus_op now start s) = Some (time_Sub now start)"
| "elapsed_of p = None"

fun recorded :: "op list \<Rightarrow> world \<Rightarrow> go_int list" where
  "recorded [] w = []"
| "recorded (p # ps) w =
     (case step p w of
        Inl e \<Rightarrow> []
      | Inr w' \<Rightarrow> (case status_of p w of None \<Rightarrow> recorded ps w' | Some c \<Rightarrow> c # recorded ps w'))"

fun latencies :: "op list \<Rightarrow> duration list" where
  "latencies [] = []"
| "latencies (p # ps) = (case elapsed_of p of None \<Rightarrow> latencies ps | Some d \<Rightarrow> d # latencies ps)"

text \<open>The two counter maps, as the entries their references lead to.\<close>

definition interval_counts :: "world \<Rightarrow> entries" where
  "interval_counts w = map_range (ResponseCounts (mw w)) w"

definition total_counts :: "world \<Rightarrow> entries" where
  "total_counts w = map_range (TotalResponseCounts (mw w)) w"

text \<open>
  The recorders that \<^verbatim>\<open>New\<close> builds and the methods keep: two different allocated
  maps, each key held once.
\<close>

definition recorder_ok :: "world \<Rightarrow> bool" where
  "recorder_ok w =
     (case (ResponseCounts (mw w), TotalResponseCounts (mw w)) of
        (Some a, Some b) \<Rightarrow>
          a \<noteq> b \<and> a < next_addr w \<and> b < next_addr w \<and>
          distinct (map fst (maps w a)) \<and> distinct (map fst (maps w b))
      | _ \<Rightarrow> False)"

text \<open>
  Two worlds for the examples: \<open>world0\<close> with nothing allocated, in which \<^verbatim>\<open>New\<close>
  is called, and \<open>world1\<close> with a recorder that has counted three requests, one of
  them since the last reset.
\<close>

definition world0 :: world where
  "world0 = \<lparr>mw = \<lparr>Uptime = 0, Pid = 0, ResponseCounts = None, TotalResponseCounts = None,
                     TotalResponseTime = 0\<rparr>,
             maps = (\<lambda>a. []), next_addr = 0, ctxs = (\<lambda>c. \<lparr>statusCode = 0\<rparr>)\<rparr>"

definition world1 :: world where
  "world1 = \<lparr>mw = \<lparr>Uptime = 0, Pid = 1, ResponseCounts = Some 0, TotalResponseCounts = Some 1,
                     TotalResponseTime = 12\<rparr>,
             maps = (\<lambda>a. [])(0 := [(''200'', 1)], 1 := [(''200'', 2), (''404'', 1)]),
             next_addr = 2, ctxs = (\<lambda>c. \<lparr>statusCode = 200\<rparr>)\<rparr>"

text \<open>
  References that lead into the allocated part of the store. Go has no other
  references; the store of the model does, and \<open>refs_allocated\<close> rules them out.
\<close>

definition refs_allocated :: "world \<Rightarrow> bool" where
  "refs_allocated w =
     ((case ResponseCounts (mw w) of None \<Rightarrow> True | Some a \<Rightarrow> a < next_addr w) \<and>
      (case TotalResponseCounts (mw w) of None \<Rightarrow> True | Some b \<Rightarrow> b < next_addr w))"

text \<open>A snapshot taken after a run, and what it and the counter maps show.\<close>

definition snapshot :: "op list \<Rightarrow> Time \<Rightarrow> world \<Rightarrow> panic + Data \<times> world" where
  "snapshot ops now w = (case run ops w of Inl e \<Rightarrow> Inl e | Inr w' \<Rightarrow> Data now w')"

definition snapshot_TotalCount :: "op list \<Rightarrow> Time \<Rightarrow> world \<Rightarrow> int option" where
  "snapshot_TotalCount ops now w =
     (case snapshot ops now w of Inl e \<Rightarrow> None | Inr (d, w') \<Rightarrow> Some (sint (TotalCount d)))"


definition interval_entry_after :: "op list \<Rightarrow> world \<Rightarrow> string \<Rightarrow> int option" where
  "interval_entry_after ops w k =
     (case run ops w of Inl e \<Rightarrow> None | Inr w' \<Rightarrow> map_option sint (map_of (interval_counts w') k))"

definition total_entry_after :: "op list \<Rightarrow> world \<Rightarrow> string \<Rightarrow> int option" where
  "total_entry_after ops w k =
     (case run ops w of Inl e \<Rightarrow> None | Inr w' \<Rightarrow> map_option sint (map_of (total_counts w') k))"

section \<open>Notions used in the statements and proofs\<close>

text \<open>
  Reading a decimal numeral back: \<open>decimal_int\<close> is the integer a string of an
  optional minus sign and decimal digits denotes.
\<close>

definition digit_val :: "char \<Rightarrow> nat" where
  "digit_val c = of_char c - 48"

definition decimal_value :: "string \<Rightarrow> nat" where
  "decimal_value s = foldl (\<lambda>a c. 10 * a + digit_val c) 0 s"

definition decimal_int :: "string \<Rightarrow> int" where
  "decimal_int s = (case s of [] \<Rightarrow> 0
     | c # cs \<Rightarrow> if c = CHR ''-'' then - int (decimal_value cs) else int (decimal_value s))"

text \<open>
  For lemma \<open>Data_eq\<close>, which gives the result of \<^verbatim>\<open>Data\<close> in closed form: the
  copy that a range loop builds, the entries its two range statements read (the
  entries of the two counter maps wherever the references of the recorder are
  allocated, lemma \<open>Data_src_allocated\<close>), and the average of a total over a count.
\<close>

definition copy_entries :: "entries \<Rightarrow> entries" where
  "copy_entries xs = fold (\<lambda>(k, v). AList.update k v) xs []"

definition Data_src1 :: "world \<Rightarrow> entries" where
  "Data_src1 w = (case ResponseCounts (mw w) of None \<Rightarrow> []
     | Some a \<Rightarrow> if a = next_addr w \<or> a = Suc (next_addr w) then [] else maps w a)"

definition Data_src2 :: "world \<Rightarrow> entries" where
  "Data_src2 w = (case TotalResponseCounts (mw w) of None \<Rightarrow> []
     | Some a \<Rightarrow> if a = next_addr w then copy_entries (Data_src1 w)
                else if a = Suc (next_addr w) then [] else maps w a)"

definition Data_avg :: "duration \<Rightarrow> go_int \<Rightarrow> duration" where
  "Data_avg t c = (if 0 <s c then word_of_int (sint t sdiv sint c) else 0)"

text \<open>
  What a \<^verbatim>\<open>Time\<close> holds: an instant whose seconds fit an \<^verbatim>\<open>int64\<close>. \<open>sums_held t ds\<close>
  says so of every instant reached from \<open>t\<close> by adding the durations \<open>ds\<close> in turn.
\<close>

definition Time_holds :: "int \<Rightarrow> bool" where
  "Time_holds x = (- (2 ^ 63) \<le> x div 1000000000 \<and> x div 1000000000 < 2 ^ 63)"

fun sums_held :: "Time \<Rightarrow> duration list \<Rightarrow> bool" where
  "sums_held t [] = True"
| "sums_held t (d # ds) = (Time_holds (t + sint d) \<and> sums_held (t + sint d) ds)"

text \<open>
  The invariant of the counters: each entry of the two maps is a number of requests,
  the interval's at most the total's, and no more than \<open>n\<close> requests were recorded.
\<close>

definition counted :: "world \<Rightarrow> nat \<Rightarrow> bool" where
  "counted w n = (\<exists>f g. \<forall>k. entries_get (interval_counts w) k = of_nat (f k) \<and>
      entries_get (total_counts w) k = of_nat (g k) \<and> f k \<le> g k \<and> g k \<le> n)"

section \<open>Properties of the operations\<close>

lemma digit_val_digit_char: "d < 10 \<Longrightarrow> digit_val (digit_char d) = d"
proof -
  assume "d < 10"
  then have "d \<in> {0, 1, 2, 3, 4, 5, 6, 7, 8, 9}" by auto
  then show ?thesis
    by (auto simp: digit_val_def digit_char_def)
qed

lemma digit_char_not_minus: "d < 10 \<Longrightarrow> digit_char d \<noteq> CHR ''-''"
proof -
  assume "d < 10"
  then have "d \<in> {0, 1, 2, 3, 4, 5, 6, 7, 8, 9}" by auto
  then show ?thesis
    by (auto simp: digit_char_def)
qed

lemma decimal_value_snoc: "decimal_value (s @ [c]) = 10 * decimal_value s + digit_val c"
  by (simp add: decimal_value_def)

lemma decimal_value_digits: "decimal_value (digits n) = n"
proof (induction n rule: digits.induct)
  case (1 n)
  show ?case
  proof (cases "n < 10")
    case True
    then show ?thesis
      by (simp add: digits.simps [of n] decimal_value_def digit_val_digit_char)
  next
    case False
    with 1 show ?thesis
      by (simp add: digits.simps [of n] decimal_value_snoc digit_val_digit_char)
  qed
qed

lemma hd_digits: "\<exists>d cs. d < 10 \<and> digits n = digit_char d # cs"
proof (induction n rule: digits.induct)
  case (1 n)
  show ?case
  proof (cases "n < 10")
    case True
    then show ?thesis by (auto simp: digits.simps [of n])
  next
    case False
    with 1 obtain d cs where "d < 10" "digits (n div 10) = digit_char d # cs" by blast
    with False show ?thesis by (auto simp: digits.simps [of n])
  qed
qed

lemma digits_not_minus: "digits n \<noteq> CHR ''-'' # cs"
proof
  assume a: "digits n = CHR ''-'' # cs"
  obtain d ds where "d < 10" "digits n = digit_char d # ds"
    using hd_digits [of n] by blast
  with a have "d < 10" "digit_char d = CHR ''-''" by simp_all
  then show False using digit_char_not_minus by blast
qed

lemma digits_inj: "digits m = digits n \<Longrightarrow> m = n"
  using decimal_value_digits by metis

lemma Sprintf_d_inj: "Sprintf_d a = Sprintf_d b \<Longrightarrow> a = b"
proof -
  assume eq: "Sprintf_d a = Sprintf_d b"
  have "sint a = sint b"
  proof (cases "sint a < 0")
    case True
    with eq have nb: "sint b < 0"
      using digits_not_minus [of "nat (sint b)", THEN not_sym] by (auto simp: Sprintf_d_def split: if_splits)
    with True eq have "nat (- sint a) = nat (- sint b)"
      by (auto simp: Sprintf_d_def dest: digits_inj)
    with True nb show ?thesis by simp
  next
    case False
    with eq have nb: "\<not> sint b < 0"
      using digits_not_minus [of "nat (sint a)"] by (auto simp: Sprintf_d_def split: if_splits)
    with False eq have "nat (sint a) = nat (sint b)"
      by (auto simp: Sprintf_d_def dest: digits_inj)
    with False nb show ?thesis by simp
  qed
  then show ?thesis by (rule signed_word_eqI)
qed

lemma entries_get_Nil: "entries_get [] k = 0"
  by (simp add: entries_get_def)

lemma map_of_entries_incr:
  "map_of (entries_incr k m) = (map_of m)(k \<mapsto> entries_get m k + 1)"
  by (simp add: entries_incr_def update_conv')

lemma entries_get_incr:
  "entries_get (entries_incr k m) k' = (if k' = k then entries_get m k + 1 else entries_get m k')"
  by (simp add: entries_get_def map_of_entries_incr)

lemma distinct_entries_incr:
  "distinct (map fst m) \<Longrightarrow> distinct (map fst (entries_incr k m))"
  by (simp add: entries_incr_def distinct_update)

lemma sum_list_update:
  "sum_list (map snd (AList.update k (entries_get m k + 1) m)) = sum_list (map snd m) + 1"
proof (induction m)
  case Nil
  then show ?case by (simp add: entries_get_def)
next
  case (Cons p m)
  obtain k' v where p: "p = (k', v)" by (cases p)
  show ?case
  proof (cases "k' = k")
    case True
    with p show ?thesis by (simp add: entries_get_def)
  next
    case False
    with p Cons show ?thesis by (simp add: entries_get_def)
  qed
qed

lemma sum_list_entries_incr:
  "sum_list (map snd (entries_incr k m)) = sum_list (map snd m) + 1"
  by (simp add: entries_incr_def sum_list_update)

lemma keys_entries_incr:
  "fst ` set (entries_incr k m) = insert k (fst ` set m)"
  by (simp add: entries_incr_def update_keys dom_map_of_conv_image_fst [symmetric] update_conv')

lemma copy_step_at:
  "copy_step dst (k, v) (w\<lparr>maps := (maps w)(dst := m)\<rparr>, c) =
     (w\<lparr>maps := (maps w)(dst := AList.update k v m)\<rparr>, c + v)"
  by (simp add: copy_step_def map_store_def)

lemma fold_copy_step_at:
  "fold (copy_step dst) xs (w\<lparr>maps := (maps w)(dst := m)\<rparr>, c) =
     (w\<lparr>maps := (maps w)(dst := fold (\<lambda>(k, v). AList.update k v) xs m)\<rparr>,
      c + sum_list (map snd xs))"
proof (induction xs arbitrary: m c)
  case Nil
  show ?case by simp
next
  case (Cons p xs)
  obtain k v where p: "p = (k, v)" by (cases p)
  have "fold (copy_step dst) (p # xs) (w\<lparr>maps := (maps w)(dst := m)\<rparr>, c)
      = fold (copy_step dst) xs (w\<lparr>maps := (maps w)(dst := AList.update k v m)\<rparr>, c + v)"
    unfolding p fold_simps copy_step_at ..
  also have "\<dots> = (w\<lparr>maps := (maps w)(dst := fold (\<lambda>(k, v). AList.update k v) xs (AList.update k v m))\<rparr>,
      c + v + sum_list (map snd xs))"
    by (rule Cons.IH)
  also have "\<dots> = (w\<lparr>maps := (maps w)(dst := fold (\<lambda>(k, v). AList.update k v) (p # xs) m)\<rparr>,
      c + sum_list (map snd (p # xs)))"
    unfolding p by (simp add: add.assoc)
  finally show ?case .
qed

lemma fold_copy_step:
  "fold (copy_step dst) xs (w, c) =
     (w\<lparr>maps := (maps w)(dst := fold (\<lambda>(k, v). AList.update k v) xs (maps w dst))\<rparr>,
      c + sum_list (map snd xs))"
  using fold_copy_step_at [of dst xs w "maps w dst" c] by simp

lemma Data_eq:
  "Data now w =
     Inr (\<lparr>Pid_d = Pid (mw w), UpTime = time_Sub now (Uptime (mw w)), Time_now = now,
           StatusCodeCount = next_addr w, TotalStatusCodeCount = Suc (next_addr w),
           Count = sum_list (map snd (Data_src1 w)),
           TotalCount = sum_list (map snd (Data_src2 w)),
           TotalResponseTime_d = time_Sub (TotalResponseTime (mw w)) zeroTime,
           AverageResponseTime = Data_avg (time_Sub (TotalResponseTime (mw w)) zeroTime)
                                   (sum_list (map snd (Data_src2 w)))\<rparr>,
          w\<lparr>maps := (maps w)(next_addr w := copy_entries (Data_src1 w),
                                 Suc (next_addr w) := copy_entries (Data_src2 w)),
            next_addr := Suc (Suc (next_addr w))\<rparr>)"
  apply (simp add: Data_def make_map_def Let_def split_def fold_copy_step map_range_def
      Data_src1_def Data_src2_def Data_avg_def copy_entries_def int64_div_def
      split: option.splits)
  done


lemma recorder_okE:
  assumes "recorder_ok w"
  obtains a b where "ResponseCounts (mw w) = Some a" "TotalResponseCounts (mw w) = Some b"
    "a \<noteq> b" "a < next_addr w" "b < next_addr w"
    "distinct (map fst (maps w a))" "distinct (map fst (maps w b))"
  using assms by (auto simp: recorder_ok_def split: option.splits)

lemma recorder_ok_New: "recorder_ok (New now pid w)"
  by (simp add: recorder_ok_def New_def make_map_def)

lemma counts_New:
  "interval_counts (New now pid w) = []" "total_counts (New now pid w) = []"
  "TotalResponseTime (mw (New now pid w)) = 0"
  by (simp_all add: interval_counts_def total_counts_def map_range_def New_def make_map_def zeroTime_def)

lemma int64_id: "- (2 ^ 63) \<le> x \<Longrightarrow> x < 2 ^ 63 \<Longrightarrow> int64 x = x"
  by (simp add: int64_def signed_take_bit_int_eq_self)

lemma addSec_exact:
  "- (2 ^ 63) \<le> e + d \<Longrightarrow> e + d < 2 ^ 63 \<Longrightarrow> addSec e d = e + d"
  by (simp add: addSec_def int64_id Let_def)

lemma time_Add_exact:
  assumes "Time_holds (t + sint d)"
  shows "time_Add t d = t + sint d"
proof -
  let ?G = "1000000000 :: int"
  let ?q = "sint d sdiv ?G"
  let ?r = "sint d smod ?G"
  let ?e = "t div ?G"
  let ?n = "t mod ?G"
  have D: "?q * ?G + ?r = sint d" by (rule sdiv_mult_smod_eq)
  have T: "?e * ?G + ?n = t" by simp
  have n: "0 \<le> ?n" "?n < ?G" by simp_all
  have r: "- ?G < ?r" "?r < ?G" using smod_int_range [of ?G "sint d"] by auto
  define q' where "q' = (if ?G \<le> ?n + ?r then ?q + 1 else if ?n + ?r < 0 then ?q - 1 else ?q)"
  define n' where "n' = (if ?G \<le> ?n + ?r then ?n + ?r - ?G else if ?n + ?r < 0 then ?n + ?r + ?G else ?n + ?r)"
  have n': "0 \<le> n'" "n' < ?G" using n r by (auto simp: n'_def)
  have sum: "t + sint d = (?e + q') * ?G + n'"
    using D T by (auto simp: q'_def n'_def algebra_simps)
  have "(t + sint d) div ?G = ?e + q'"
    unfolding sum using n' by (simp add: div_pos_pos_trivial)
  with assms have "- (2 ^ 63) \<le> ?e + q'" "?e + q' < 2 ^ 63"
    by (simp_all add: Time_holds_def)
  then have a: "addSec ?e q' = ?e + q'" by (rule addSec_exact)
  have "time_Add t d = addSec ?e q' * ?G + n'"
    by (simp add: time_Add_def Let_def q'_def n'_def)
  with a sum show ?thesis by simp
qed

text \<open>
  Where the seconds would overflow, \<open>time_Add\<close> is not the sum: from the last second
  a \<^verbatim>\<open>Time\<close> holds, adding the largest duration leaves the seconds where they are.
\<close>

lemma time_Add_saturates:
  "time_Add (9223372036854775807 * 1000000000) 9223372036854775807 =
     9223372036854775807 * 1000000000 + 854775807"
  by (simp add: time_Add_def addSec_def int64_def Let_def signed_divide_int_def signed_modulo_int_def)

lemma sums_held_append:
  "sums_held t (xs @ ys) = (sums_held t xs \<and> sums_held (t + sum_list (map sint xs)) ys)"
  by (induction xs arbitrary: t) (auto simp: add.assoc)


lemma sums_held_length_aux:
  "- (int k * 2 ^ 63) \<le> t \<Longrightarrow> t \<le> int k * (2 ^ 63 - 1) \<Longrightarrow> k + length ds \<le> 1000000000 \<Longrightarrow>
     sums_held t ds"
proof (induction ds arbitrary: t k)
  case Nil
  show ?case by simp
next
  case (Cons d ds)
  let ?x = "t + sint d"
  have b: "- (2 ^ 63) \<le> sint d" "sint d \<le> 2 ^ 63 - 1"
    using sint_ge [of d] sint_lt [of d] by simp_all
  from Cons.prems(1,2) b have lo: "- (int (Suc k) * 2 ^ 63) \<le> ?x" and hi: "?x \<le> int (Suc k) * (2 ^ 63 - 1)"
    by (simp_all add: algebra_simps)
  from Cons.prems(3) have k: "int (Suc k) \<le> 1000000000" by simp
  from lo k have "- (1000000000 * 2 ^ 63) \<le> ?x" by simp
  then have "(- (1000000000 * 2 ^ 63)) div 1000000000 \<le> ?x div 1000000000"
    by (intro zdiv_mono1) simp_all
  then have l2: "- (2 ^ 63) \<le> ?x div 1000000000" by simp
  from hi k have "?x \<le> 1000000000 * (2 ^ 63 - 1)" by simp
  then have "?x div 1000000000 \<le> (1000000000 * (2 ^ 63 - 1)) div 1000000000"
    by (intro zdiv_mono1) simp_all
  then have h2: "?x div 1000000000 < 2 ^ 63" by simp
  from Cons.prems(3) have "Suc k + length ds \<le> 1000000000" by simp
  from Cons.IH [OF lo hi this] l2 h2 show ?case by (simp add: Time_holds_def)
qed

lemma sums_held_length:
  "length ds \<le> 1000000000 \<Longrightarrow> sums_held 0 ds"
  using sums_held_length_aux [of 0 0 ds] by simp

lemma EndWithStatus_effect:
  assumes "recorder_ok w"
  shows "\<exists>w'. EndWithStatus now start s w = Inr w' \<and> recorder_ok w' \<and>
    interval_counts w' = entries_incr (Sprintf_d s) (interval_counts w) \<and>
    total_counts w' = entries_incr (Sprintf_d s) (total_counts w) \<and>
    TotalResponseTime (mw w') = time_Add (TotalResponseTime (mw w)) (time_Sub now start) \<and>
    ctxs w' = ctxs w"
proof -
  from assms obtain a b where ab: "ResponseCounts (mw w) = Some a" "TotalResponseCounts (mw w) = Some b"
    "a \<noteq> b" "a < next_addr w" "b < next_addr w"
    "distinct (map fst (maps w a))" "distinct (map fst (maps w b))"
    by (rule recorder_okE)
  then show ?thesis
    by (simp add: EndWithStatus_def map_incr_def recorder_ok_def interval_counts_def
        total_counts_def map_range_def distinct_entries_incr Let_def)
qed

lemma Reset_effect:
  assumes "recorder_ok w"
  shows "recorder_ok (ResetResponseCounts w) \<and>
    interval_counts (ResetResponseCounts w) = [] \<and>
    total_counts (ResetResponseCounts w) = total_counts w \<and>
    TotalResponseTime (mw (ResetResponseCounts w)) = TotalResponseTime (mw w) \<and>
    ctxs (ResetResponseCounts w) = ctxs w"
proof -
  from assms obtain a b where ab: "ResponseCounts (mw w) = Some a" "TotalResponseCounts (mw w) = Some b"
    "a \<noteq> b" "a < next_addr w" "b < next_addr w"
    "distinct (map fst (maps w a))" "distinct (map fst (maps w b))"
    by (rule recorder_okE)
  then show ?thesis
    by (auto simp: ResetResponseCounts_def make_map_def recorder_ok_def interval_counts_def
        total_counts_def map_range_def)
qed

lemma SetStatusCode_effect:
  "recorder_ok (SetStatusCode ctx s w) = recorder_ok w"
  "interval_counts (SetStatusCode ctx s w) = interval_counts w"
  "total_counts (SetStatusCode ctx s w) = total_counts w"
  "mw (SetStatusCode ctx s w) = mw w"
  by (simp_all add: SetStatusCode_def recorder_ok_def interval_counts_def total_counts_def map_range_def
      split: option.splits)

lemma Data_effect:
  assumes "recorder_ok w"
  shows "\<exists>d w'. Data now w = Inr (d, w') \<and> recorder_ok w' \<and>
    interval_counts w' = interval_counts w \<and> total_counts w' = total_counts w \<and>
    mw w' = mw w \<and> ctxs w' = ctxs w \<and>
    Count d = sum_list (map snd (interval_counts w)) \<and>
    TotalCount d = sum_list (map snd (total_counts w)) \<and>
    maps w' (StatusCodeCount d) = copy_entries (interval_counts w) \<and>
    maps w' (TotalStatusCodeCount d) = copy_entries (total_counts w)"
proof -
  from assms obtain a b where ab: "ResponseCounts (mw w) = Some a" "TotalResponseCounts (mw w) = Some b"
    "a \<noteq> b" "a < next_addr w" "b < next_addr w"
    "distinct (map fst (maps w a))" "distinct (map fst (maps w b))"
    by (rule recorder_okE)
  then have src: "Data_src1 w = maps w a" "Data_src2 w = maps w b"
    by (simp_all add: Data_src1_def Data_src2_def)
  from ab show ?thesis
    by (simp add: Data_eq src recorder_ok_def interval_counts_def total_counts_def map_range_def)
qed

lemma step_effect:
  assumes "recorder_ok w"
  shows "\<exists>w'. step p w = Inr w' \<and> recorder_ok w' \<and>
    total_counts w' = (case status_of p w of None \<Rightarrow> total_counts w
                        | Some c \<Rightarrow> entries_incr (Sprintf_d c) (total_counts w)) \<and>
    interval_counts w' = (if p = Reset_op then [] else case status_of p w of None \<Rightarrow> interval_counts w
                        | Some c \<Rightarrow> entries_incr (Sprintf_d c) (interval_counts w)) \<and>
    TotalResponseTime (mw w') = (case elapsed_of p of None \<Rightarrow> TotalResponseTime (mw w)
                        | Some d \<Rightarrow> time_Add (TotalResponseTime (mw w)) d)"
proof (cases p)
  case (Begin_op now ctx)
  with assms show ?thesis by (simp add: Begin_def SetStatusCode_effect)
next
  case (SetStatusCode_op ctx s)
  with assms show ?thesis by (simp add: SetStatusCode_effect)
next
  case (End_op now start ctx)
  with EndWithStatus_effect [OF assms, of now start "StatusCode (ctxs w ctx)"] show ?thesis
    by (auto simp: End_def)
next
  case (EndWithStatus_op now start s)
  with EndWithStatus_effect [OF assms, of now start s] show ?thesis
    by auto
next
  case Reset_op
  with Reset_effect [OF assms] show ?thesis by simp
next
  case (Data_op now)
  with Data_effect [OF assms, of now] show ?thesis by auto
qed


lemma sint_of_nat_64:
  "n < 2 ^ 63 \<Longrightarrow> sint (word_of_nat n :: 64 word) = int n"
proof -
  assume "n < 2 ^ 63"
  then have "int n < 2 ^ 63" by (metis of_nat_less_iff of_nat_numeral of_nat_power)
  then show ?thesis
    by (simp add: signed_of_nat signed_take_bit_int_eq_self)
qed

lemma sint_of_int_64:
  "- (2 ^ 63) \<le> i \<Longrightarrow> i < 2 ^ 63 \<Longrightarrow> sint (word_of_int i :: 64 word) = i"
  by (simp add: signed_of_int signed_take_bit_int_eq_self)

lemma run_ok:
  "recorder_ok w \<Longrightarrow> \<exists>w'. run ops w = Inr w' \<and> recorder_ok w'"
proof (induction ops arbitrary: w)
  case Nil
  then show ?case by simp
next
  case (Cons p ps)
  from step_effect [OF Cons.prems, of p] obtain w1 where "step p w = Inr w1" "recorder_ok w1"
    by blast
  with Cons.IH [of w1] show ?case by simp
qed

lemma run_total_get:
  "recorder_ok w \<Longrightarrow> run ops w = Inr w' \<Longrightarrow>
     entries_get (total_counts w') k =
       entries_get (total_counts w) k + of_nat (count_list (map Sprintf_d (recorded ops w)) k)"
proof (induction ops arbitrary: w)
  case Nil
  then show ?case by simp
next
  case (Cons p ps)
  from step_effect [OF Cons.prems(1), of p] obtain w1 where w1: "step p w = Inr w1" "recorder_ok w1"
    "total_counts w1 = (case status_of p w of None \<Rightarrow> total_counts w
                        | Some c \<Rightarrow> entries_incr (Sprintf_d c) (total_counts w))"
    by blast
  from Cons.prems(2) w1(1) have "run ps w1 = Inr w'" by simp
  from Cons.IH [OF w1(2) this] w1 show ?case
    by (cases "status_of p w") (simp_all add: entries_get_incr)
qed

lemma run_total_sum:
  "recorder_ok w \<Longrightarrow> run ops w = Inr w' \<Longrightarrow>
     sum_list (map snd (total_counts w')) =
       sum_list (map snd (total_counts w)) + of_nat (length (recorded ops w))"
proof (induction ops arbitrary: w)
  case Nil
  then show ?case by simp
next
  case (Cons p ps)
  from step_effect [OF Cons.prems(1), of p] obtain w1 where w1: "step p w = Inr w1" "recorder_ok w1"
    "total_counts w1 = (case status_of p w of None \<Rightarrow> total_counts w
                        | Some c \<Rightarrow> entries_incr (Sprintf_d c) (total_counts w))"
    by blast
  from Cons.prems(2) w1(1) have "run ps w1 = Inr w'" by simp
  from Cons.IH [OF w1(2) this] w1 show ?case
    by (cases "status_of p w") (simp_all add: sum_list_entries_incr)
qed

lemma run_interval_get:
  "recorder_ok w \<Longrightarrow> run ops w = Inr w' \<Longrightarrow> Reset_op \<notin> set ops \<Longrightarrow>
     entries_get (interval_counts w') k =
       entries_get (interval_counts w) k + of_nat (count_list (map Sprintf_d (recorded ops w)) k)"
proof (induction ops arbitrary: w)
  case Nil
  then show ?case by simp
next
  case (Cons p ps)
  from Cons.prems(3) have nr: "p \<noteq> Reset_op" "Reset_op \<notin> set ps" by auto
  from step_effect [OF Cons.prems(1), of p] nr obtain w1 where w1: "step p w = Inr w1" "recorder_ok w1"
    "interval_counts w1 = (case status_of p w of None \<Rightarrow> interval_counts w
                        | Some c \<Rightarrow> entries_incr (Sprintf_d c) (interval_counts w))"
    by auto
  from Cons.prems(2) w1(1) have "run ps w1 = Inr w'" by simp
  from Cons.IH [OF w1(2) this nr(2)] w1 show ?case
    by (cases "status_of p w") (simp_all add: entries_get_incr)
qed

lemma run_interval_keys:
  "recorder_ok w \<Longrightarrow> run ops w = Inr w' \<Longrightarrow> Reset_op \<notin> set ops \<Longrightarrow>
     fst ` set (interval_counts w') =
       fst ` set (interval_counts w) \<union> Sprintf_d ` set (recorded ops w)"
proof (induction ops arbitrary: w)
  case Nil
  then show ?case by simp
next
  case (Cons p ps)
  from Cons.prems(3) have nr: "p \<noteq> Reset_op" "Reset_op \<notin> set ps" by auto
  from step_effect [OF Cons.prems(1), of p] nr obtain w1 where w1: "step p w = Inr w1" "recorder_ok w1"
    "interval_counts w1 = (case status_of p w of None \<Rightarrow> interval_counts w
                        | Some c \<Rightarrow> entries_incr (Sprintf_d c) (interval_counts w))"
    by auto
  from Cons.prems(2) w1(1) have "run ps w1 = Inr w'" by simp
  from Cons.IH [OF w1(2) this nr(2)] w1 show ?case
    by (cases "status_of p w") (simp_all add: keys_entries_incr)
qed

lemma step_time:
  assumes "recorder_ok w" "step p w = Inr w'" "sums_held (TotalResponseTime (mw w)) (latencies [p])"
  shows "TotalResponseTime (mw w') =
     TotalResponseTime (mw w) + (case elapsed_of p of None \<Rightarrow> 0 | Some d \<Rightarrow> sint d)"
proof -
  from step_effect [OF assms(1), of p] assms(2) have e: "TotalResponseTime (mw w') =
      (case elapsed_of p of None \<Rightarrow> TotalResponseTime (mw w)
       | Some d \<Rightarrow> time_Add (TotalResponseTime (mw w)) d)"
    by auto
  show ?thesis
  proof (cases "elapsed_of p")
    case None
    with e show ?thesis by simp
  next
    case (Some d)
    with assms(3) have "Time_holds (TotalResponseTime (mw w) + sint d)" by simp
    with e Some show ?thesis by (simp add: time_Add_exact)
  qed
qed

lemma run_time:
  "recorder_ok w \<Longrightarrow> run ops w = Inr w' \<Longrightarrow>
     sums_held (TotalResponseTime (mw w)) (latencies ops) \<Longrightarrow>
     TotalResponseTime (mw w') = TotalResponseTime (mw w) + sum_list (map sint (latencies ops))"
proof (induction ops arbitrary: w)
  case Nil
  then show ?case by simp
next
  case (Cons p ps)
  from step_effect [OF Cons.prems(1), of p] obtain w1 where w1: "step p w = Inr w1" "recorder_ok w1"
    by blast
  have l: "latencies (p # ps) = latencies [p] @ latencies ps"
    by (cases "elapsed_of p") simp_all
  from Cons.prems(3) have h1: "sums_held (TotalResponseTime (mw w)) (latencies [p])"
    and h2: "sums_held (TotalResponseTime (mw w) + sum_list (map sint (latencies [p]))) (latencies ps)"
    unfolding l sums_held_append by simp_all
  from step_time [OF Cons.prems(1) w1(1) h1] have t1: "TotalResponseTime (mw w1) =
     TotalResponseTime (mw w) + (case elapsed_of p of None \<Rightarrow> 0 | Some d \<Rightarrow> sint d)" .
  then have t1': "TotalResponseTime (mw w1) = TotalResponseTime (mw w) + sum_list (map sint (latencies [p]))"
    by (cases "elapsed_of p") simp_all
  from Cons.prems(2) w1(1) have "run ps w1 = Inr w'" by simp
  moreover from h2 t1' have "sums_held (TotalResponseTime (mw w1)) (latencies ps)" by simp
  ultimately have "TotalResponseTime (mw w') =
      TotalResponseTime (mw w1) + sum_list (map sint (latencies ps))"
    by (rule Cons.IH [OF w1(2)])
  with t1' show ?case unfolding l by simp
qed

lemma counted_incr:
  assumes "counted w n"
  shows "\<exists>f g. \<forall>k. entries_get (entries_incr c (interval_counts w)) k = of_nat (f k) \<and>
      entries_get (entries_incr c (total_counts w)) k = of_nat (g k) \<and> f k \<le> g k \<and> g k \<le> Suc n"
proof -
  from assms obtain f g where fg: "\<And>k. entries_get (interval_counts w) k = of_nat (f k) \<and>
      entries_get (total_counts w) k = of_nat (g k) \<and> f k \<le> g k \<and> g k \<le> n"
    unfolding counted_def by blast
  let ?f = "\<lambda>k. if k = c then Suc (f c) else f k"
  let ?g = "\<lambda>k. if k = c then Suc (g c) else g k"
  have "\<forall>k. entries_get (entries_incr c (interval_counts w)) k = of_nat (?f k) \<and>
      entries_get (entries_incr c (total_counts w)) k = of_nat (?g k) \<and> ?f k \<le> ?g k \<and> ?g k \<le> Suc n"
  proof
    fix k
    from fg [of k] fg [of c] show "entries_get (entries_incr c (interval_counts w)) k = of_nat (?f k) \<and>
      entries_get (entries_incr c (total_counts w)) k = of_nat (?g k) \<and> ?f k \<le> ?g k \<and> ?g k \<le> Suc n"
      by (simp add: entries_get_incr)
  qed
  then show ?thesis by (intro exI)
qed

lemma counted_reset:
  assumes "counted w n" "total_counts w' = total_counts w" "interval_counts w' = []"
  shows "counted w' n"
proof -
  from assms(1) obtain f g where fg: "\<And>k. entries_get (interval_counts w) k = of_nat (f k) \<and>
      entries_get (total_counts w) k = of_nat (g k) \<and> f k \<le> g k \<and> g k \<le> n"
    unfolding counted_def by blast
  show ?thesis
    unfolding counted_def
    by (rule exI [of _ "\<lambda>k. 0"], rule exI [of _ g]) (simp add: fg assms(2,3) entries_get_Nil)
qed

lemma counted_step:
  assumes "recorder_ok w" "counted w n" "step p w = Inr w'"
  shows "counted w' (n + length (recorded [p] w))"
proof -
  from step_effect [OF assms(1), of p] assms(3) have eff:
    "total_counts w' = (case status_of p w of None \<Rightarrow> total_counts w
                        | Some c \<Rightarrow> entries_incr (Sprintf_d c) (total_counts w))"
    "interval_counts w' = (if p = Reset_op then [] else case status_of p w of None \<Rightarrow> interval_counts w
                        | Some c \<Rightarrow> entries_incr (Sprintf_d c) (interval_counts w))"
    by auto
  show ?thesis
  proof (cases "status_of p w")
    case None
    show ?thesis
    proof (cases "p = Reset_op")
      case True
      with eff None assms show ?thesis by (simp add: counted_reset)
    next
      case False
      with eff None assms show ?thesis by (simp add: counted_def)
    qed
  next
    case (Some c)
    then have "p \<noteq> Reset_op" by auto
    with eff Some assms counted_incr [OF assms(2), of "Sprintf_d c"] show ?thesis
      by (simp add: counted_def)
  qed
qed

lemma counted_run:
  "recorder_ok w \<Longrightarrow> counted w n \<Longrightarrow> run ops w = Inr w' \<Longrightarrow>
     counted w' (n + length (recorded ops w))"
proof (induction ops arbitrary: w n)
  case Nil
  then show ?case by simp
next
  case (Cons p ps)
  from step_effect [OF Cons.prems(1), of p] obtain w1 where w1: "step p w = Inr w1" "recorder_ok w1"
    by blast
  from Cons.prems(3) w1(1) have r: "run ps w1 = Inr w'" by simp
  from counted_step [OF Cons.prems(1,2) w1(1)] have c1: "counted w1 (n + length (recorded [p] w))" .
  from Cons.IH [OF w1(2) c1 r] w1(1) show ?case
    by (cases "status_of p w") (simp_all add: add.assoc)
qed

lemma counted_New: "counted (New now pid w) 0"
  unfolding counted_def
  by (rule exI [of _ "\<lambda>k. 0"], rule exI [of _ "\<lambda>k. 0"]) (simp add: counts_New entries_get_def)

lemma counted_sle:
  assumes "counted w n" "n < 2 ^ 63"
  shows "entries_get (interval_counts w) k \<le>s entries_get (total_counts w) k"
proof -
  from assms(1) obtain f g where fg: "entries_get (interval_counts w) k = of_nat (f k)"
      "entries_get (total_counts w) k = of_nat (g k)" "f k \<le> g k" "g k \<le> n"
    unfolding counted_def by blast
  with assms(2) have "f k < 2 ^ 63" "g k < 2 ^ 63" by simp_all
  with fg show ?thesis
    by (simp add: word_sle_eq sint_of_nat_64)
qed

lemma sdiv_pos_bounds:
  fixes t c :: int
  assumes "- (2 ^ 63) \<le> t" "t < 2 ^ 63" "0 < c"
  shows "- (2 ^ 63) \<le> t sdiv c \<and> t sdiv c < 2 ^ 63"
proof -
  have le: "\<bar>t\<bar> div c \<le> \<bar>t\<bar>"
    using assms(3) by (metis abs_ge_zero div_by_1 int_one_le_iff_zero_less zdiv_mono2 zero_less_one)
  have ge: "0 \<le> \<bar>t\<bar> div c" using assms(3) by (simp add: pos_imp_zdiv_nonneg_iff)
  show ?thesis
  proof (cases "t < 0")
    case True
    with assms le ge show ?thesis by (simp add: signed_divide_int_def)
  next
    case False
    with assms le ge show ?thesis by (cases "t = 0") (simp_all add: signed_divide_int_def)
  qed
qed

lemma sint_Data_avg:
  "sint (Data_avg t c) = (if 0 < sint c then sgn (sint t) * (\<bar>sint t\<bar> div sint c) else 0)"
proof (cases "0 < sint c")
  case True
  have b: "- (2 ^ 63) \<le> sint t" "sint t < 2 ^ 63"
    using sint_ge [of t] sint_lt [of t] by simp_all
  from sdiv_pos_bounds [OF b True] have "sint (word_of_int (sint t sdiv sint c) :: 64 word) = sint t sdiv sint c"
    by (simp add: sint_of_int_64)
  with True show ?thesis
    by (simp add: Data_avg_def word_sless_alt signed_divide_int_def)
next
  case False
  then show ?thesis by (simp add: Data_avg_def word_sless_alt)
qed

lemma recorded_example:
  "recorded [EndWithStatus_op 0 7 200, EndWithStatus_op 0 0 404] (New 0 1 world0) = [200, 404]"
  by (simp add: New_def make_map_def world0_def EndWithStatus_def map_incr_def Let_def)

lemma decimal_int_digits: "decimal_int (digits n) = int n"
proof -
  obtain d cs where d: "d < 10" "digits n = digit_char d # cs"
    using hd_digits [of n] by blast
  from d(1) have "digit_char d \<noteq> CHR ''-''" by (rule digit_char_not_minus)
  with d(2) have "decimal_int (digits n) = int (decimal_value (digits n))"
    by (simp add: decimal_int_def)
  then show ?thesis by (simp add: decimal_value_digits)
qed

lemma decimal_int_Sprintf_d: "decimal_int (Sprintf_d s) = sint s"
proof (cases "sint s < 0")
  case True
  then show ?thesis
    by (simp add: Sprintf_d_def decimal_int_def decimal_value_digits)
next
  case False
  then show ?thesis
    by (simp add: Sprintf_d_def decimal_int_digits)
qed

lemma map_of_fold_update:
  "distinct (map fst xs) \<Longrightarrow>
     map_of (fold (\<lambda>(k, v). AList.update k v) xs acc) k =
       (case map_of xs k of None \<Rightarrow> map_of acc k | Some v \<Rightarrow> Some v)"
proof (induction xs arbitrary: acc)
  case Nil
  show ?case by simp
next
  case (Cons p xs)
  obtain k1 v1 where p: "p = (k1, v1)" by (cases p)
  from Cons.prems p have d: "distinct (map fst xs)" and n: "k1 \<notin> fst ` set xs" by simp_all
  from n have none: "map_of xs k1 = None" by (simp add: map_of_eq_None_iff)
  have "map_of (fold (\<lambda>(k, v). AList.update k v) (p # xs) acc) k =
      map_of (fold (\<lambda>(k, v). AList.update k v) xs (AList.update k1 v1 acc)) k"
    by (simp add: p)
  also have "\<dots> = (case map_of xs k of None \<Rightarrow> map_of (AList.update k1 v1 acc) k | Some v \<Rightarrow> Some v)"
    by (rule Cons.IH [OF d])
  also have "\<dots> = (case map_of (p # xs) k of None \<Rightarrow> map_of acc k | Some v \<Rightarrow> Some v)"
    using none by (simp add: p update_conv' split: option.splits)
  finally show ?case .
qed

lemma map_of_copy_entries:
  "distinct (map fst xs) \<Longrightarrow> map_of (copy_entries xs) = map_of xs"
  by (rule ext) (simp add: copy_entries_def map_of_fold_update split: option.splits)

lemma entries_get_copy_entries:
  "distinct (map fst xs) \<Longrightarrow> entries_get (copy_entries xs) k = entries_get xs k"
  by (simp add: entries_get_def map_of_copy_entries)

lemma Data_src_allocated:
  assumes "refs_allocated w"
  shows "Data_src1 w = interval_counts w" "Data_src2 w = total_counts w"
  using assms
  by (auto simp: refs_allocated_def Data_src1_def Data_src2_def interval_counts_def
      total_counts_def map_range_def split: option.splits)

lemma Data_allocated:
  assumes "refs_allocated w"
  shows "Data now w =
     Inr (\<lparr>Pid_d = Pid (mw w), UpTime = time_Sub now (Uptime (mw w)), Time_now = now,
           StatusCodeCount = next_addr w, TotalStatusCodeCount = Suc (next_addr w),
           Count = sum_list (map snd (interval_counts w)),
           TotalCount = sum_list (map snd (total_counts w)),
           TotalResponseTime_d = time_Sub (TotalResponseTime (mw w)) zeroTime,
           AverageResponseTime = Data_avg (time_Sub (TotalResponseTime (mw w)) zeroTime)
                                   (sum_list (map snd (total_counts w)))\<rparr>,
          w\<lparr>maps := (maps w)(next_addr w := copy_entries (interval_counts w),
                                 Suc (next_addr w) := copy_entries (total_counts w)),
            next_addr := Suc (Suc (next_addr w))\<rparr>)"
  unfolding Data_eq Data_src_allocated [OF assms] ..

lemma count_list_Sprintf_d:
  "count_list (map Sprintf_d cs) (Sprintf_d c) = count_list cs c"
  by (induction cs) (auto dest: Sprintf_d_inj)

lemma recorded_replicate:
  "recorder_ok w \<Longrightarrow> recorded (replicate n (EndWithStatus_op a b s)) w = replicate n s"
proof (induction n arbitrary: w)
  case 0
  show ?case by simp
next
  case (Suc n)
  from EndWithStatus_effect [OF Suc.prems, of a b s] obtain w1 where
    "EndWithStatus a b s w = Inr w1" "recorder_ok w1" by blast
  with Suc.IH [of w1] show ?case by simp
qed

lemma snapshot_after_run:
  assumes "recorder_ok w"
  shows "\<exists>w' d w''. run ops w = Inr w' \<and> Data now w' = Inr (d, w'') \<and>
     TotalCount d = sum_list (map snd (total_counts w)) + of_nat (length (recorded ops w)) \<and>
     (\<forall>k. entries_get (maps w'' (TotalStatusCodeCount d)) k =
        entries_get (total_counts w) k + of_nat (count_list (map Sprintf_d (recorded ops w)) k))"
proof -
  from run_ok [OF assms, of ops] obtain w' where r: "run ops w = Inr w'" and ok: "recorder_ok w'"
    by blast
  from Data_effect [OF ok, of now] obtain d w'' where d: "Data now w' = Inr (d, w'')"
    "TotalCount d = sum_list (map snd (total_counts w'))"
    "maps w'' (TotalStatusCodeCount d) = copy_entries (total_counts w')"
    by blast
  from ok have dist: "distinct (map fst (total_counts w'))"
    by (auto simp: recorder_ok_def total_counts_def map_range_def split: option.splits)
  have "entries_get (maps w'' (TotalStatusCodeCount d)) k =
        entries_get (total_counts w) k + of_nat (count_list (map Sprintf_d (recorded ops w)) k)" for k
    using d(3) dist run_total_get [OF assms r, of k] by (simp add: entries_get_copy_entries)
  with r d(1,2) run_total_sum [OF assms r] show ?thesis by simp
qed

lemma recorded_example4:
  "recorded [EndWithStatus_op 5 3 200, Begin_op 6 7, End_op 9 6 7, Reset_op, EndWithStatus_op 10 8 404]
     (New 0 1 world0) = [200, 200, 404]"
  by (simp add: New_def make_map_def world0_def EndWithStatus_def End_def Begin_def
      SetStatusCode_def StatusCode_def ResetResponseCounts_def map_incr_def Let_def)

lemma snapshot_TotalCount_replicate:
  "snapshot_TotalCount (replicate n (EndWithStatus_op a b s)) now (New t p w0) =
     Some (sint (word_of_nat n :: 64 word))"
proof -
  from snapshot_after_run [OF recorder_ok_New, of "replicate n (EndWithStatus_op a b s)" t p w0 now]
  obtain w' d w'' where "run (replicate n (EndWithStatus_op a b s)) (New t p w0) = Inr w'"
    "Data now w' = Inr (d, w'')"
    "TotalCount d = of_nat (length (recorded (replicate n (EndWithStatus_op a b s)) (New t p w0)))"
    by (auto simp: counts_New)
  then show ?thesis
    by (simp add: snapshot_TotalCount_def snapshot_def recorded_replicate [OF recorder_ok_New])
qed

lemma recorded_example3:
  "recorded [EndWithStatus_op 5 3 200, Reset_op, EndWithStatus_op 9 8 200] (New 0 1 world0) = [200, 200]"
  by (simp add: New_def make_map_def world0_def EndWithStatus_def
      ResetResponseCounts_def map_incr_def Let_def)

lemma map_of_entries_get:
  "k \<in> fst ` set m \<Longrightarrow> map_of m k = Some (entries_get m k)"
  by (cases "map_of m k") (auto simp: entries_get_def map_of_eq_None_iff)

lemma count_list_replicate: "count_list (replicate n x) x = n"
  by (induction n) simp_all

lemma run_total_keys:
  "recorder_ok w \<Longrightarrow> run ops w = Inr w' \<Longrightarrow>
     fst ` set (total_counts w') =
       fst ` set (total_counts w) \<union> Sprintf_d ` set (recorded ops w)"
proof (induction ops arbitrary: w)
  case Nil
  then show ?case by simp
next
  case (Cons p ps)
  from step_effect [OF Cons.prems(1), of p] obtain w1 where w1: "step p w = Inr w1" "recorder_ok w1"
    "total_counts w1 = (case status_of p w of None \<Rightarrow> total_counts w
                        | Some c \<Rightarrow> entries_incr (Sprintf_d c) (total_counts w))"
    by blast
  from Cons.prems(2) w1(1) have "run ps w1 = Inr w'" by simp
  from Cons.IH [OF w1(2) this] w1 show ?case
    by (cases "status_of p w") (simp_all add: keys_entries_incr)
qed

lemma entries_after_reset_replicate:
  assumes "0 < n"
  shows "interval_entry_after (EndWithStatus_op a b s # Reset_op # replicate n (EndWithStatus_op a b s))
           (New t p w0) (Sprintf_d s) = Some (sint (word_of_nat n :: 64 word))"
    and "total_entry_after (EndWithStatus_op a b s # Reset_op # replicate n (EndWithStatus_op a b s))
           (New t p w0) (Sprintf_d s) = Some (sint (word_of_nat (Suc n) :: 64 word))"
proof -
  let ?E = "EndWithStatus_op a b s"
  let ?k = "Sprintf_d s"
  from step_effect [OF recorder_ok_New, of ?E t p w0] obtain w1 where w1:
    "step ?E (New t p w0) = Inr w1" "recorder_ok w1"
    "total_counts w1 = entries_incr ?k []"
    by (auto simp: counts_New)
  from step_effect [OF w1(2), of Reset_op] obtain w2 where w2:
    "step Reset_op w1 = Inr w2" "recorder_ok w2"
    "total_counts w2 = entries_incr ?k []" "interval_counts w2 = []"
    by (auto simp: w1(3))
  from run_ok [OF w2(2), of "replicate n ?E"] obtain w3 where w3:
    "run (replicate n ?E) w2 = Inr w3" by blast
  have nr: "Reset_op \<notin> set (replicate n ?E)" by simp
  have rec: "recorded (replicate n ?E) w2 = replicate n s"
    by (rule recorded_replicate [OF w2(2)])
  have r: "run (?E # Reset_op # replicate n ?E) (New t p w0) = Inr w3"
    using w1(1) w2(1) w3 by simp
  have ig: "entries_get (interval_counts w3) ?k = of_nat n"
    using run_interval_get [OF w2(2) w3 nr, of ?k] by (simp add: rec count_list_replicate w2(4) entries_get_Nil)
  have tg: "entries_get (total_counts w3) ?k = of_nat (Suc n)"
    using run_total_get [OF w2(2) w3, of ?k]
    by (simp add: rec count_list_replicate w2(3) entries_get_incr entries_get_Nil)
  have ik: "?k \<in> fst ` set (interval_counts w3)"
    using run_interval_keys [OF w2(2) w3 nr] assms by (simp add: rec)
  have tk: "?k \<in> fst ` set (total_counts w3)"
    using run_total_keys [OF w2(2) w3] by (simp add: w2(3) keys_entries_incr)
  show "interval_entry_after (?E # Reset_op # replicate n ?E) (New t p w0) ?k
      = Some (sint (word_of_nat n :: 64 word))"
    unfolding interval_entry_after_def r using map_of_entries_get [OF ik] ig by simp
  show "total_entry_after (?E # Reset_op # replicate n ?E) (New t p w0) ?k
      = Some (sint (word_of_nat (Suc n) :: 64 word))"
    unfolding total_entry_after_def r using map_of_entries_get [OF tk] tg by simp
qed

lemma Sprintf_d_examples:
  "Sprintf_d 200 = ''200''" "Sprintf_d 404 = ''404''" "Sprintf_d 500 = ''500''"
  by (simp_all add: Sprintf_d_def digits.simps digit_char_def)

lemma copy_loop_order:
  assumes "distinct (map fst xs)" "distinct (map fst ys)" "set xs = set ys"
  shows "snd (fold (copy_step dst) xs (w, c)) = snd (fold (copy_step dst) ys (w, c)) \<and>
    map_of (maps (fst (fold (copy_step dst) xs (w, c))) dst) =
      map_of (maps (fst (fold (copy_step dst) ys (w, c))) dst) \<and>
    (maps (fst (fold (copy_step dst) xs (w, c))))(dst := []) =
      (maps (fst (fold (copy_step dst) ys (w, c))))(dst := [])"
proof -
  from assms(1,2) have d: "distinct xs" "distinct ys" by (simp_all add: distinct_map)
  from d assms(3) have s: "sum_list (map snd xs) = sum_list (map snd ys)"
    by (simp add: sum_list_distinct_conv_sum_set)
  from assms have m: "map_of xs = map_of ys" by (simp add: map_of_inject_set)
  have "map_of (fold (\<lambda>(k, v). AList.update k v) xs (maps w dst)) k =
      map_of (fold (\<lambda>(k, v). AList.update k v) ys (maps w dst)) k" for k
    by (simp add: map_of_fold_update assms(1,2) m)
  then have "map_of (fold (\<lambda>(k, v). AList.update k v) xs (maps w dst)) =
      map_of (fold (\<lambda>(k, v). AList.update k v) ys (maps w dst))" by (rule ext)
  with s show ?thesis by (simp add: fold_copy_step)
qed

lemma sint_time_Sub: "sint (time_Sub t u) = max minDuration (min maxDuration (t - u))"
  by (simp add: time_Sub_def sint_of_int_64 minDuration_def maxDuration_def)







lemma Sprintf_d_0: "Sprintf_d 0 = ''0''"
  by (simp add: Sprintf_d_def digits.simps digit_char_def)

section \<open>The claims\<close>

text \<open>
  Claim C1, amended. Whatever operations a run from a new recorder consists of
  (resets and snapshots included), as long as it records fewer than \<open>2 ^ 63\<close>
  requests, a snapshot taken after it reports as \<open>TotalCount\<close> the number of
  requests recorded, and under the key of each status code \<open>c\<close> its map of totals
  reads the number of requests recorded with \<open>c\<close> (zero for a code never recorded).
  The counters are Go ints: lemma \<open>snapshot_after_run\<close> gives the two values as
  64-bit words for a run of any length.
\<close>

theorem snapshot_counts_requests:
  assumes "length (recorded ops (New now pid w0)) < 2 ^ 63"
  shows "\<exists>w' d w''. run ops (New now pid w0) = Inr w' \<and> Data now' w' = Inr (d, w'') \<and>
     sint (TotalCount d) = int (length (recorded ops (New now pid w0))) \<and>
     (\<forall>c. sint (entries_get (maps w'' (TotalStatusCodeCount d)) (Sprintf_d c)) =
        int (count_list (recorded ops (New now pid w0)) c))"
proof -
  let ?cs = "recorded ops (New now pid w0)"
  from snapshot_after_run [OF recorder_ok_New, of ops now pid w0 now'] obtain w' d w'' where
    r: "run ops (New now pid w0) = Inr w'" and d: "Data now' w' = Inr (d, w'')"
    and t: "TotalCount d = of_nat (length ?cs)"
    and e: "\<And>k. entries_get (maps w'' (TotalStatusCodeCount d)) k =
        of_nat (count_list (map Sprintf_d ?cs) k)"
    by (auto simp: counts_New entries_get_Nil)
  from t assms have "sint (TotalCount d) = int (length ?cs)"
    by (simp add: sint_of_nat_64)
  moreover have "sint (entries_get (maps w'' (TotalStatusCodeCount d)) (Sprintf_d c)) =
        int (count_list ?cs c)" for c
  proof -
    have "count_list ?cs c \<le> length ?cs" by (rule count_le_length)
    with assms have "count_list ?cs c < 2 ^ 63" by simp
    then show ?thesis by (simp add: e count_list_Sprintf_d sint_of_nat_64)
  qed
  ultimately show ?thesis using r d by simp
qed

theorem snapshot_counts_requests_witness:
  "length (recorded [EndWithStatus_op 5 3 200, Begin_op 6 7, End_op 9 6 7, Reset_op, EndWithStatus_op 10 8 404]
     (New 0 1 world0)) < 2 ^ 63 \<and>
   (\<exists>w' d w''. run [EndWithStatus_op 5 3 200, Begin_op 6 7, End_op 9 6 7, Reset_op, EndWithStatus_op 10 8 404]
        (New 0 1 world0) = Inr w' \<and> Data 11 w' = Inr (d, w'') \<and>
     sint (TotalCount d) = 3 \<and>
     sint (entries_get (maps w'' (TotalStatusCodeCount d)) ''200'') = 2 \<and>
     sint (entries_get (maps w'' (TotalStatusCodeCount d)) ''404'') = 1 \<and>
     sint (entries_get (maps w'' (TotalStatusCodeCount d)) ''500'') = 0)"
proof -
  let ?ops = "[EndWithStatus_op 5 3 200, Begin_op 6 7, End_op 9 6 7, Reset_op, EndWithStatus_op 10 8 404]"
  have h: "length (recorded ?ops (New 0 1 world0)) < 2 ^ 63"
    unfolding recorded_example4 by simp
  from snapshot_counts_requests [OF h, of 11] obtain w' d w'' where
    r: "run ?ops (New 0 1 world0) = Inr w'" "Data 11 w' = Inr (d, w'')"
    and t: "sint (TotalCount d) = int (length (recorded ?ops (New 0 1 world0)))"
    and e: "\<And>c. sint (entries_get (maps w'' (TotalStatusCodeCount d)) (Sprintf_d c)) =
        int (count_list (recorded ?ops (New 0 1 world0)) c)"
    by blast
  have k: "Sprintf_d 200 = ''200''" "Sprintf_d 404 = ''404''" "Sprintf_d 500 = ''500''"
    by (simp_all add: Sprintf_d_def digits.simps digit_char_def)
  from t have t': "sint (TotalCount d) = 3" unfolding recorded_example4 by simp
  from e [of 200] e [of 404] e [of 500]
  have "sint (entries_get (maps w'' (TotalStatusCodeCount d)) ''200'') = 2"
     "sint (entries_get (maps w'' (TotalStatusCodeCount d)) ''404'') = 1"
     "sint (entries_get (maps w'' (TotalStatusCodeCount d)) ''500'') = 0"
    unfolding recorded_example4 k by simp_all
  with h r t' show ?thesis by blast
qed

text \<open>
  As stated for every number of requests, C1 fails where the counter wraps around:
  after \<open>2 ^ 63\<close> requests of status 200 the snapshot reports \<open>- (2 ^ 63)\<close>.
\<close>

theorem snapshot_counts_requests_counterexample:
  "length (recorded (replicate (2 ^ 63) (EndWithStatus_op 1 0 200)) (New 0 0 world0)) = 2 ^ 63 \<and>
   snapshot_TotalCount (replicate (2 ^ 63) (EndWithStatus_op 1 0 200)) 2 (New 0 0 world0)
     = Some (- (2 ^ 63))"
proof -
  have s: "sint (word_of_nat (2 ^ 63) :: 64 word) = - (2 ^ 63)" by simp
  have "length (recorded (replicate (2 ^ 63) (EndWithStatus_op 1 0 200)) (New 0 0 world0)) = 2 ^ 63"
    unfolding recorded_replicate [OF recorder_ok_New] by (rule length_replicate)
  moreover have "snapshot_TotalCount (replicate (2 ^ 63) (EndWithStatus_op 1 0 200)) 2 (New 0 0 world0)
     = Some (- (2 ^ 63))"
    unfolding snapshot_TotalCount_replicate s ..
  ultimately show ?thesis by (rule conjI)
qed

text \<open>
  Claim C2. \<^verbatim>\<open>Data\<close> returns for every world, with no panic. The average it reports
  is, when the total count is positive, the total response duration it reports
  divided by that count with the quotient truncated towards zero, in nanoseconds;
  otherwise, and so when the count is zero, it is zero.
\<close>

theorem Data_average:
  "\<exists>d w'. Data now w = Inr (d, w') \<and>
     TotalResponseTime_d d = time_Sub (TotalResponseTime (mw w)) zeroTime \<and>
     sint (AverageResponseTime d) =
       (if 0 < sint (TotalCount d)
        then sgn (sint (TotalResponseTime_d d)) * (\<bar>sint (TotalResponseTime_d d)\<bar> div sint (TotalCount d))
        else 0)"
  by (simp add: Data_eq sint_Data_avg)

theorem Data_average_witness:
  "\<exists>d w'. snapshot [EndWithStatus_op 0 7 200, EndWithStatus_op 0 0 404] 9 (New 0 1 world0) = Inr (d, w') \<and>
     sint (TotalResponseTime_d d) = - 7 \<and> sint (TotalCount d) = 2 \<and>
     sint (AverageResponseTime d) = - 3"
proof -
  let ?ops = "[EndWithStatus_op 0 7 200, EndWithStatus_op 0 0 404]"
  from run_ok [OF recorder_ok_New, of ?ops 0 1 world0] obtain w1 where
    r: "run ?ops (New 0 1 world0) = Inr w1" and ok: "recorder_ok w1" by blast
  from Data_average [of 9 w1] obtain d w' where
    d: "Data 9 w1 = Inr (d, w')"
    and t: "TotalResponseTime_d d = time_Sub (TotalResponseTime (mw w1)) zeroTime"
    and a: "sint (AverageResponseTime d) =
       (if 0 < sint (TotalCount d)
        then sgn (sint (TotalResponseTime_d d)) * (\<bar>sint (TotalResponseTime_d d)\<bar> div sint (TotalCount d))
        else 0)"
    by blast
  from Data_effect [OF ok, of 9] d have "TotalCount d = sum_list (map snd (total_counts w1))"
    by auto
  moreover have "sum_list (map snd (total_counts w1)) = 2"
    unfolding run_total_sum [OF recorder_ok_New r] recorded_example by (simp add: counts_New)
  ultimately have c: "TotalCount d = 2" by simp
  have l: "map sint (latencies ?ops) = [- 7, 0]"
    by (simp add: sint_time_Sub minDuration_def maxDuration_def)
  have "sums_held (TotalResponseTime (mw (New 0 1 world0))) (latencies ?ops)"
    by (simp add: counts_New sint_time_Sub minDuration_def maxDuration_def Time_holds_def)
  from run_time [OF recorder_ok_New r this] have "TotalResponseTime (mw w1) = - 7"
    unfolding l by (simp add: counts_New)
  with t have t': "sint (TotalResponseTime_d d) = - 7"
    by (simp add: time_Sub_def zeroTime_def minDuration_def maxDuration_def)
  from a c t' have "sint (AverageResponseTime d) = - 3" by simp
  with r d c t' show ?thesis by (simp add: snapshot_def)
qed

text \<open>
  Claim C3, amended. After a run from a new recorder that records fewer than
  \<open>2 ^ 63\<close> requests, whatever its operations, every key reads in the interval
  map at most what it reads in the map of totals (a key that is present reads its
  entry, an absent one reads 0), compared as Go compares ints.
\<close>

theorem interval_le_total:
  assumes "length (recorded ops (New now pid w0)) < 2 ^ 63"
  shows "\<exists>w'. run ops (New now pid w0) = Inr w' \<and>
     (\<forall>k. entries_get (interval_counts w') k \<le>s entries_get (total_counts w') k)"
proof -
  from run_ok [OF recorder_ok_New, of ops now pid w0] obtain w' where
    r: "run ops (New now pid w0) = Inr w'" by blast
  from counted_run [OF recorder_ok_New counted_New r]
  have "counted w' (length (recorded ops (New now pid w0)))" by simp
  from counted_sle [OF this assms] r show ?thesis by simp
qed

theorem interval_le_total_witness:
  "length (recorded [EndWithStatus_op 5 3 200, Reset_op, EndWithStatus_op 9 8 200] (New 0 1 world0)) < 2 ^ 63 \<and>
   (\<exists>w'. run [EndWithStatus_op 5 3 200, Reset_op, EndWithStatus_op 9 8 200] (New 0 1 world0) = Inr w' \<and>
     (\<forall>k. entries_get (interval_counts w') k \<le>s entries_get (total_counts w') k))"
proof -
  have h: "length (recorded [EndWithStatus_op 5 3 200, Reset_op, EndWithStatus_op 9 8 200] (New 0 1 world0)) < 2 ^ 63"
    unfolding recorded_example3 by simp
  from h interval_le_total [OF h] show ?thesis by (rule conjI)
qed

text \<open>
  As stated for every sequence of operations, C3 fails where a total wraps around:
  one request, a reset, and \<open>2 ^ 63 - 1\<close> more requests of status 200 leave the
  interval entry of \<open>''200''\<close> at \<open>2 ^ 63 - 1\<close> and its total at \<open>- (2 ^ 63)\<close>.
\<close>

theorem interval_le_total_counterexample:
  "interval_entry_after
     (EndWithStatus_op 1 0 200 # Reset_op # replicate (2 ^ 63 - 1) (EndWithStatus_op 1 0 200))
     (New 0 0 world0) ''200'' = Some (2 ^ 63 - 1) \<and>
   total_entry_after
     (EndWithStatus_op 1 0 200 # Reset_op # replicate (2 ^ 63 - 1) (EndWithStatus_op 1 0 200))
     (New 0 0 world0) ''200'' = Some (- (2 ^ 63))"
proof -
  have k: "Sprintf_d 200 = ''200''"
    by (simp add: Sprintf_d_def digits.simps digit_char_def)
  have pos: "0 < (2 ^ 63 - 1 :: nat)" by simp
  have s1: "sint (word_of_nat (2 ^ 63 - 1) :: 64 word) = 2 ^ 63 - 1" by simp
  have s2: "sint (word_of_nat (Suc (2 ^ 63 - 1)) :: 64 word) = - (2 ^ 63)" by simp
  from entries_after_reset_replicate [OF pos, of 1 0 200 0 0 world0]
  show ?thesis unfolding k s1 s2 by (rule conjI)
qed

text \<open>
  Claim C4. \<^verbatim>\<open>ResetResponseCounts\<close> makes \<open>ResponseCounts\<close> refer to a new map, other
  than the two maps the recorder referred to, with no entries. The reference
  \<open>TotalResponseCounts\<close> and the entries it leads to, \<open>TotalResponseTime\<close>,
  \<open>Uptime\<close> and \<open>Pid\<close> are unchanged, and so is every map that existed before.
\<close>

theorem ResetResponseCounts_frame:
  assumes "refs_allocated w"
  shows "ResponseCounts (mw (ResetResponseCounts w)) = Some (next_addr w) \<and>
    ResponseCounts (mw (ResetResponseCounts w)) \<noteq> ResponseCounts (mw w) \<and>
    ResponseCounts (mw (ResetResponseCounts w)) \<noteq> TotalResponseCounts (mw w) \<and>
    interval_counts (ResetResponseCounts w) = [] \<and>
    TotalResponseCounts (mw (ResetResponseCounts w)) = TotalResponseCounts (mw w) \<and>
    total_counts (ResetResponseCounts w) = total_counts w \<and>
    TotalResponseTime (mw (ResetResponseCounts w)) = TotalResponseTime (mw w) \<and>
    Uptime (mw (ResetResponseCounts w)) = Uptime (mw w) \<and>
    Pid (mw (ResetResponseCounts w)) = Pid (mw w) \<and>
    maps (ResetResponseCounts w) = (maps w)(next_addr w := []) \<and>
    ctxs (ResetResponseCounts w) = ctxs w"
  using assms
  by (auto simp: ResetResponseCounts_def make_map_def refs_allocated_def interval_counts_def
      total_counts_def map_range_def split: option.splits)

theorem ResetResponseCounts_frame_witness:
  "refs_allocated (New 0 1 world0) \<and>
   ResponseCounts (mw (ResetResponseCounts (New 0 1 world0))) = Some (next_addr (New 0 1 world0)) \<and>
    ResponseCounts (mw (ResetResponseCounts (New 0 1 world0))) \<noteq> ResponseCounts (mw (New 0 1 world0)) \<and>
    ResponseCounts (mw (ResetResponseCounts (New 0 1 world0))) \<noteq> TotalResponseCounts (mw (New 0 1 world0)) \<and>
    interval_counts (ResetResponseCounts (New 0 1 world0)) = [] \<and>
    TotalResponseCounts (mw (ResetResponseCounts (New 0 1 world0))) = TotalResponseCounts (mw (New 0 1 world0)) \<and>
    total_counts (ResetResponseCounts (New 0 1 world0)) = total_counts (New 0 1 world0) \<and>
    TotalResponseTime (mw (ResetResponseCounts (New 0 1 world0))) = TotalResponseTime (mw (New 0 1 world0)) \<and>
    Uptime (mw (ResetResponseCounts (New 0 1 world0))) = Uptime (mw (New 0 1 world0)) \<and>
    Pid (mw (ResetResponseCounts (New 0 1 world0))) = Pid (mw (New 0 1 world0)) \<and>
    maps (ResetResponseCounts (New 0 1 world0)) = (maps (New 0 1 world0))(next_addr (New 0 1 world0) := []) \<and>
    ctxs (ResetResponseCounts (New 0 1 world0)) = ctxs (New 0 1 world0)"
proof -
  have h: "refs_allocated (New 0 1 world0)"
    by (simp add: refs_allocated_def New_def make_map_def world0_def)
  from h ResetResponseCounts_frame [OF h] show ?thesis by (rule conjI)
qed

text \<open>
  Claim C5, amended. When the status field of the context's response holds \<open>s\<close>,
  \<^verbatim>\<open>End\<close> with the context gives the result of \<^verbatim>\<open>EndWithStatus\<close> with \<open>s\<close> if \<open>s\<close>
  is not 0, and with 200 if it is (\<^verbatim>\<open>Response.StatusCode()\<close> reads a field of 0 as
  200): the same world, hence the same two counter maps and the same total response
  time, or the same panic.
\<close>

theorem End_is_EndWithStatus:
  "statusCode (ctxs w ctx) = s \<Longrightarrow>
     End now start ctx w = EndWithStatus now start (if s = 0 then 200 else s) w"
  by (simp add: End_def StatusCode_def)

theorem End_is_EndWithStatus_witness:
  "statusCode (ctxs (SetStatusCode 7 404 (New 0 1 world0)) 7) = 404 \<and>
   End 5 3 7 (SetStatusCode 7 404 (New 0 1 world0)) =
     EndWithStatus 5 3 404 (SetStatusCode 7 404 (New 0 1 world0))"
proof -
  have h: "statusCode (ctxs (SetStatusCode 7 404 (New 0 1 world0)) 7) = 404"
    by (simp add: SetStatusCode_def)
  from End_is_EndWithStatus [OF h, of 5 3]
  have "End 5 3 7 (SetStatusCode 7 404 (New 0 1 world0)) =
     EndWithStatus 5 3 404 (SetStatusCode 7 404 (New 0 1 world0))" by simp
  with h show ?thesis by (rule conjI)
qed


text \<open>
  As stated for every status, C5 fails at 0: on a context whose status was set to
  0, \<^verbatim>\<open>End\<close> counts the request under \<open>''200''\<close>, where \<^verbatim>\<open>EndWithStatus\<close> with 0 counts
  it under \<open>''0''\<close>.
\<close>

theorem End_is_EndWithStatus_counterexample:
  "statusCode (ctxs (SetStatusCode 7 0 (New 0 1 world0)) 7) = 0 \<and>
   total_entry_after [End_op 5 3 7] (SetStatusCode 7 0 (New 0 1 world0)) ''200'' = Some 1 \<and>
   total_entry_after [End_op 5 3 7] (SetStatusCode 7 0 (New 0 1 world0)) ''0'' = None \<and>
   total_entry_after [EndWithStatus_op 5 3 0] (SetStatusCode 7 0 (New 0 1 world0)) ''0'' = Some 1 \<and>
   total_entry_after [EndWithStatus_op 5 3 0] (SetStatusCode 7 0 (New 0 1 world0)) ''200'' = None"
  by (simp add: total_entry_after_def total_counts_def map_range_def End_def StatusCode_def
      EndWithStatus_def map_incr_def entries_incr_def entries_get_def SetStatusCode_def
      New_def make_map_def world0_def Let_def Sprintf_d_0 Sprintf_d_examples)




text \<open>
  Claim C7. From a new recorder, three requests between \<^verbatim>\<open>Begin\<close> and \<^verbatim>\<open>End\<close>, the
  third with its status set to 404, give a snapshot with count 3, interval counts
  200: 2 and 404: 1, and total count 3. A reset and a fourth request with status 500
  then give a snapshot with interval counts 500: 1, totals 200: 2, 404: 1 and
  500: 1, and total count 4.
\<close>

theorem scenario_three_requests_then_reset:
  "\<exists>w1 d1 w1'.
     run [Begin_op t1 c1, End_op t2 t1 c1,
          Begin_op t3 c2, End_op t4 t3 c2,
          Begin_op t5 c3, SetStatusCode_op c3 404, End_op t6 t5 c3] (New now pid w0) = Inr w1 \<and>
     Data n1 w1 = Inr (d1, w1') \<and>
     Count d1 = 3 \<and>
     map_of (maps w1' (StatusCodeCount d1)) = [''200'' \<mapsto> 2, ''404'' \<mapsto> 1] \<and>
     TotalCount d1 = 3 \<and>
     (\<exists>w2 d2 w2'.
        run [Reset_op, Begin_op t7 c4, SetStatusCode_op c4 500, End_op t8 t7 c4] w1' = Inr w2 \<and>
        Data n2 w2 = Inr (d2, w2') \<and>
        map_of (maps w2' (StatusCodeCount d2)) = [''500'' \<mapsto> 1] \<and>
        map_of (maps w2' (TotalStatusCodeCount d2)) = [''200'' \<mapsto> 2, ''404'' \<mapsto> 1, ''500'' \<mapsto> 1] \<and>
        TotalCount d2 = 4)"
  by (simp add: New_def make_map_def Begin_def SetStatusCode_def StatusCode_def End_def EndWithStatus_def
      map_incr_def ResetResponseCounts_def Let_def Data_eq Data_src1_def Data_src2_def
      copy_entries_def entries_incr_def entries_get_def Sprintf_d_examples fun_upd_twist)

text \<open>
  Claim C8. \<^verbatim>\<open>Begin\<close> returns the time it read from the clock and the context it
  was given, and leaves the status of that context's response at 200, as stored and
  as \<^verbatim>\<open>StatusCode()\<close> returns it. The recorder,
  the store of maps and with them both counter maps are unchanged, so an \<^verbatim>\<open>End\<close>
  that follows with no change of status records what \<^verbatim>\<open>EndWithStatus\<close> records for
  200.
\<close>

theorem Begin_effect:
  "fst (Begin now ctx w) = (now, ctx) \<and>
   statusCode (ctxs (snd (Begin now ctx w)) ctx) = 200 \<and>
   StatusCode (ctxs (snd (Begin now ctx w)) ctx) = 200 \<and>
   mw (snd (Begin now ctx w)) = mw w \<and>
   maps (snd (Begin now ctx w)) = maps w \<and>
   next_addr (snd (Begin now ctx w)) = next_addr w \<and>
   interval_counts (snd (Begin now ctx w)) = interval_counts w \<and>
   total_counts (snd (Begin now ctx w)) = total_counts w \<and>
   End now' (fst (fst (Begin now ctx w))) (snd (fst (Begin now ctx w))) (snd (Begin now ctx w)) =
     EndWithStatus now' now 200 (snd (Begin now ctx w))"
  by (simp add: Begin_def SetStatusCode_def StatusCode_def End_def interval_counts_def total_counts_def
      map_range_def split: option.splits)

text \<open>
  Claim C9. On a recorder whose two maps are allocated and different, as \<^verbatim>\<open>New\<close>
  builds them, \<^verbatim>\<open>EndWithStatus\<close> returns for every status \<open>s\<close> of type int. In each
  map it stores, under the key \<open>Sprintf_d s\<close>, one more than the entry of that key,
  or than 0 when the key has no entry, and leaves the other keys as they are. The
  key is the decimal numeral of \<open>s\<close>: read back as a numeral it gives \<open>sint s\<close>.
\<close>

theorem EndWithStatus_total:
  assumes "ResponseCounts (mw w) = Some a" "TotalResponseCounts (mw w) = Some b" "a \<noteq> b"
  shows "\<exists>w'. EndWithStatus now start s w = Inr w' \<and>
     map_of (interval_counts w') = (map_of (interval_counts w))
       (Sprintf_d s \<mapsto> (case map_of (interval_counts w) (Sprintf_d s) of None \<Rightarrow> 0 | Some v \<Rightarrow> v) + 1) \<and>
     map_of (total_counts w') = (map_of (total_counts w))
       (Sprintf_d s \<mapsto> (case map_of (total_counts w) (Sprintf_d s) of None \<Rightarrow> 0 | Some v \<Rightarrow> v) + 1) \<and>
     decimal_int (Sprintf_d s) = sint s"
  using assms
  by (simp add: EndWithStatus_def map_incr_def Let_def interval_counts_def total_counts_def
      map_range_def map_of_entries_incr entries_get_def decimal_int_Sprintf_d)

theorem EndWithStatus_total_witness:
  "ResponseCounts (mw (New 0 1 world0)) = Some 0 \<and>
   TotalResponseCounts (mw (New 0 1 world0)) = Some 1 \<and> (0::nat) \<noteq> 1 \<and>
   (\<exists>w'. EndWithStatus 5 3 (- 5) (New 0 1 world0) = Inr w' \<and>
     map_of (interval_counts w') = (map_of (interval_counts (New 0 1 world0)))
       (Sprintf_d (- 5) \<mapsto> (case map_of (interval_counts (New 0 1 world0)) (Sprintf_d (- 5)) of None \<Rightarrow> 0 | Some v \<Rightarrow> v) + 1) \<and>
     map_of (total_counts w') = (map_of (total_counts (New 0 1 world0)))
       (Sprintf_d (- 5) \<mapsto> (case map_of (total_counts (New 0 1 world0)) (Sprintf_d (- 5)) of None \<Rightarrow> 0 | Some v \<Rightarrow> v) + 1) \<and>
     decimal_int (Sprintf_d (- 5)) = sint (- 5 :: 64 word))"
proof -
  have h1: "ResponseCounts (mw (New 0 1 world0)) = Some 0"
    by (simp add: New_def make_map_def world0_def)
  have h2: "TotalResponseCounts (mw (New 0 1 world0)) = Some 1"
    by (simp add: New_def make_map_def world0_def)
  have h3: "(0::nat) \<noteq> 1" by simp
  from h1 h2 h3 EndWithStatus_total [OF h1 h2 h3, of 5 3 "- 5"] show ?thesis by blast
qed

text \<open>
  Claim C10. \<^verbatim>\<open>Data\<close> leaves the recorder, the contexts, both counter maps and
  every allocated map unchanged. The two maps of its result are at addresses that
  were not allocated, different from each other and from the recorder's two
  references, so whatever entries are stored in them afterwards, both counter maps
  of the recorder read as before; they hold the entries of the counter maps. A
  second call reports the same entries, counts and durations.
\<close>

theorem Data_frame:
  assumes "refs_allocated w"
  shows "\<exists>d w'. Data now w = Inr (d, w') \<and> mw w' = mw w \<and> ctxs w' = ctxs w \<and>
     interval_counts w' = interval_counts w \<and> total_counts w' = total_counts w \<and>
     (\<forall>a. a < next_addr w \<longrightarrow> maps w' a = maps w a) \<and>
     next_addr w \<le> StatusCodeCount d \<and> next_addr w \<le> TotalStatusCodeCount d \<and>
     StatusCodeCount d \<noteq> TotalStatusCodeCount d \<and>
     ResponseCounts (mw w) \<noteq> Some (StatusCodeCount d) \<and>
     ResponseCounts (mw w) \<noteq> Some (TotalStatusCodeCount d) \<and>
     TotalResponseCounts (mw w) \<noteq> Some (StatusCodeCount d) \<and>
     TotalResponseCounts (mw w) \<noteq> Some (TotalStatusCodeCount d) \<and>
     (\<forall>m1 m2.
        interval_counts (w'\<lparr>maps := (maps w')(StatusCodeCount d := m1, TotalStatusCodeCount d := m2)\<rparr>)
          = interval_counts w \<and>
        total_counts (w'\<lparr>maps := (maps w')(StatusCodeCount d := m1, TotalStatusCodeCount d := m2)\<rparr>)
          = total_counts w) \<and>
     (distinct (map fst (interval_counts w)) \<longrightarrow>
        map_of (maps w' (StatusCodeCount d)) = map_of (interval_counts w)) \<and>
     (distinct (map fst (total_counts w)) \<longrightarrow>
        map_of (maps w' (TotalStatusCodeCount d)) = map_of (total_counts w)) \<and>
     (\<exists>d2 w2. Data now2 w' = Inr (d2, w2) \<and>
        maps w2 (StatusCodeCount d2) = maps w' (StatusCodeCount d) \<and>
        maps w2 (TotalStatusCodeCount d2) = maps w' (TotalStatusCodeCount d) \<and>
        Count d2 = Count d \<and> TotalCount d2 = TotalCount d \<and>
        TotalResponseTime_d d2 = TotalResponseTime_d d \<and>
        AverageResponseTime d2 = AverageResponseTime d)"
proof -
  let ?n = "next_addr w"
  let ?w' = "w\<lparr>maps := (maps w)(?n := copy_entries (interval_counts w),
                                 Suc ?n := copy_entries (total_counts w)),
               next_addr := Suc (Suc ?n)\<rparr>"
  have al': "refs_allocated ?w'"
    using assms by (auto simp: refs_allocated_def split: option.splits)
  have ic: "interval_counts ?w' = interval_counts w" and tc: "total_counts ?w' = total_counts w"
    using assms
    by (auto simp: refs_allocated_def interval_counts_def total_counts_def map_range_def
        split: option.splits)
  have mut: "interval_counts (?w'\<lparr>maps := (maps ?w')(?n := m1, Suc ?n := m2)\<rparr>) = interval_counts w \<and>
        total_counts (?w'\<lparr>maps := (maps ?w')(?n := m1, Suc ?n := m2)\<rparr>) = total_counts w" for m1 m2
    using assms
    by (auto simp: refs_allocated_def interval_counts_def total_counts_def map_range_def
        split: option.splits)
  have fresh: "ResponseCounts (mw w) \<noteq> Some ?n" "ResponseCounts (mw w) \<noteq> Some (Suc ?n)"
     "TotalResponseCounts (mw w) \<noteq> Some ?n" "TotalResponseCounts (mw w) \<noteq> Some (Suc ?n)"
    using assms by (auto simp: refs_allocated_def split: option.splits)
  have D1: "Data now w =
     Inr (\<lparr>Pid_d = Pid (mw w), UpTime = time_Sub now (Uptime (mw w)), Time_now = now,
           StatusCodeCount = ?n, TotalStatusCodeCount = Suc ?n,
           Count = sum_list (map snd (interval_counts w)),
           TotalCount = sum_list (map snd (total_counts w)),
           TotalResponseTime_d = time_Sub (TotalResponseTime (mw w)) zeroTime,
           AverageResponseTime = Data_avg (time_Sub (TotalResponseTime (mw w)) zeroTime)
                                   (sum_list (map snd (total_counts w)))\<rparr>, ?w')"
    by (rule Data_allocated [OF assms])
  have D2: "Data now2 ?w' =
     Inr (\<lparr>Pid_d = Pid (mw w), UpTime = time_Sub now2 (Uptime (mw w)), Time_now = now2,
           StatusCodeCount = Suc (Suc ?n), TotalStatusCodeCount = Suc (Suc (Suc ?n)),
           Count = sum_list (map snd (interval_counts w)),
           TotalCount = sum_list (map snd (total_counts w)),
           TotalResponseTime_d = time_Sub (TotalResponseTime (mw w)) zeroTime,
           AverageResponseTime = Data_avg (time_Sub (TotalResponseTime (mw w)) zeroTime)
                                   (sum_list (map snd (total_counts w)))\<rparr>,
          ?w'\<lparr>maps := (maps ?w')(Suc (Suc ?n) := copy_entries (interval_counts w),
                                 Suc (Suc (Suc ?n)) := copy_entries (total_counts w)),
            next_addr := Suc (Suc (Suc (Suc ?n)))\<rparr>)"
    using Data_allocated [OF al', of now2] ic tc by simp
  show ?thesis
    unfolding D1
    using ic tc mut fresh D2
    by (simp add: map_of_copy_entries)
qed

theorem Data_frame_witness:
  "refs_allocated world1 \<and>
   (\<exists>d w'. Data 20 world1 = Inr (d, w') \<and> mw w' = mw world1 \<and> ctxs w' = ctxs world1 \<and>
     interval_counts w' = interval_counts world1 \<and> total_counts w' = total_counts world1 \<and>
     (\<forall>a. a < next_addr world1 \<longrightarrow> maps w' a = maps world1 a) \<and>
     next_addr world1 \<le> StatusCodeCount d \<and> next_addr world1 \<le> TotalStatusCodeCount d \<and>
     StatusCodeCount d \<noteq> TotalStatusCodeCount d \<and>
     ResponseCounts (mw world1) \<noteq> Some (StatusCodeCount d) \<and>
     ResponseCounts (mw world1) \<noteq> Some (TotalStatusCodeCount d) \<and>
     TotalResponseCounts (mw world1) \<noteq> Some (StatusCodeCount d) \<and>
     TotalResponseCounts (mw world1) \<noteq> Some (TotalStatusCodeCount d) \<and>
     (\<forall>m1 m2.
        interval_counts (w'\<lparr>maps := (maps w')(StatusCodeCount d := m1, TotalStatusCodeCount d := m2)\<rparr>)
          = interval_counts world1 \<and>
        total_counts (w'\<lparr>maps := (maps w')(StatusCodeCount d := m1, TotalStatusCodeCount d := m2)\<rparr>)
          = total_counts world1) \<and>
     (distinct (map fst (interval_counts world1)) \<longrightarrow>
        map_of (maps w' (StatusCodeCount d)) = map_of (interval_counts world1)) \<and>
     (distinct (map fst (total_counts world1)) \<longrightarrow>
        map_of (maps w' (TotalStatusCodeCount d)) = map_of (total_counts world1)) \<and>
     (\<exists>d2 w2. Data 21 w' = Inr (d2, w2) \<and>
        maps w2 (StatusCodeCount d2) = maps w' (StatusCodeCount d) \<and>
        maps w2 (TotalStatusCodeCount d2) = maps w' (TotalStatusCodeCount d) \<and>
        Count d2 = Count d \<and> TotalCount d2 = TotalCount d \<and>
        TotalResponseTime_d d2 = TotalResponseTime_d d \<and>
        AverageResponseTime d2 = AverageResponseTime d)) \<and>
   distinct (map fst (interval_counts world1)) \<and> distinct (map fst (total_counts world1))"
proof -
  have h: "refs_allocated world1"
    by (simp add: refs_allocated_def world1_def)
  have d: "distinct (map fst (interval_counts world1))" "distinct (map fst (total_counts world1))"
    by (simp_all add: interval_counts_def total_counts_def map_range_def world1_def)
  from h Data_frame [OF h, of 20 21] d show ?thesis by (intro conjI)
qed

end
